theory Spec2Isabelle
  imports Main "HOL-Library.AList" "HOL-Library.Sublist"
begin

section \<open>Terminal sessions and their output buffer\<close>

text \<open>
  The model follows \<^verbatim>\<open>src/index.ts\<close>. A session identifier (a version-4 UUID in the
  source) is a natural number drawn from a counter, so that every identifier is new.
  Wall-clock readings (\<^verbatim>\<open>Date.now()\<close>) are integers of milliseconds. The pseudo-terminal
  handle of a session is addressed by the session's identifier.
\<close>

type_synonym tid = nat

record TerminalSession =
  t_id :: tid
  t_name :: string
  t_output :: "string list"
  cwd :: string
  createdAt :: int
  commandHistory :: "string list"
  outputReady :: bool
  lastCommand :: string
  commandStartTime :: int

text \<open>The \<^verbatim>\<open>onData\<close> callback of \<^verbatim>\<open>createTerminal\<close>: push, then shift once past 1000.\<close>

definition onData :: "TerminalSession \<Rightarrow> string \<Rightarrow> TerminalSession" where
  "onData session d =
     (let pushed = t_output session @ [d]
      in session\<lparr>t_output := (if length pushed > 1000 then tl pushed else pushed)\<rparr>)"

text \<open>The session object as \<^verbatim>\<open>createTerminal\<close> builds it.\<close>

definition newSession :: "tid \<Rightarrow> string \<Rightarrow> string \<Rightarrow> int \<Rightarrow> TerminalSession" where
  "newSession i nm dir now =
     \<lparr>t_id = i, t_name = nm, t_output = [], cwd = dir, createdAt = now,
      commandHistory = [], outputReady = False, lastCommand = [], commandStartTime = 0\<rparr>"

section \<open>Project descriptors\<close>

text \<open>
  The fields of \<^verbatim>\<open>ProjectService\<close>, \<^verbatim>\<open>ProjectSetupStep\<close> and \<^verbatim>\<open>ProjectConfig\<close> that the
  modelled handlers read. An optional field is an \<open>option\<close>; \<^verbatim>\<open>envVars\<close> lists its entries
  in the order of \<^verbatim>\<open>Object.entries\<close>.
\<close>

record ProjectService =
  s_name :: string
  s_path :: string
  startCommand :: "string option"
  buildCommand :: "string option"
  testCommand :: "string option"
  envVars :: "(string \<times> string) list option"
  dependsOn :: "string list option"

record ProjectSetupStep =
  st_name :: string
  st_command :: string
  description :: "string option"
  workingDir :: "string option"
  allowFailure :: "bool option"

record ProjectConfig =
  p_id :: string
  p_name :: string
  rootPath :: string
  services :: "ProjectService list"
  setupSteps :: "ProjectSetupStep list"
  commonCommands :: "(string \<times> string) list"

section \<open>The process-wide state and the pseudo-terminal effects\<close>

text \<open>
  The two global maps of the source are association lists in insertion order, as a
  JavaScript \<^verbatim>\<open>Map\<close> iterates. The calls made on pseudo-terminals are logged in \<open>trace\<close>,
  oldest first, and \<open>running\<close> holds the identifiers of the processes that were spawned
  and have not exited. \<^verbatim>\<open>kill()\<close> only sends a signal: the call is logged, and the process
  stays in \<open>running\<close> until its exit is delivered, as an event of its own, if it ever is.
  A spawn is taken to succeed.
\<close>

datatype effect = Spawn tid string string | PtyWrite tid string | PtyKill tid

datatype error =
    TerminalNotFound tid
  | ProjectNotFound string
  | InvalidConfig
  | TimeoutWaiting string
  | TypeError string

record world =
  terminals :: "(tid \<times> TerminalSession) list"
  projects :: "(string \<times> ProjectConfig) list"
  nextId :: tid
  running :: "tid set"
  trace :: "effect list"
  clock :: int

definition initWorld :: world where
  "initWorld = \<lparr>terminals = [], projects = [], nextId = 0, running = {}, trace = [], clock = 0\<rparr>"

definition CR :: string where
  "CR = [CHR 0x0D]"

definition DQ :: string where
  "DQ = [CHR 0x22]"

definition createTerminal :: "string \<Rightarrow> string \<Rightarrow> world \<Rightarrow> TerminalSession \<times> world" where
  "createTerminal nm dir w =
     (let i = nextId w;
          session = newSession i nm dir (clock w)
      in (session,
          w\<lparr>terminals := AList.update i session (terminals w),
            nextId := Suc i,
            running := insert i (running w),
            trace := trace w @ [Spawn i nm dir]\<rparr>))"

definition ptyWrite :: "tid \<Rightarrow> string \<Rightarrow> world \<Rightarrow> world" where
  "ptyWrite i text w = w\<lparr>trace := trace w @ [PtyWrite i text]\<rparr>"

text \<open>The \<^verbatim>\<open>onExit\<close> callback of \<^verbatim>\<open>createTerminal\<close>, run when process \<open>i\<close> exits.\<close>

definition processExit :: "tid \<Rightarrow> world \<Rightarrow> world" where
  "processExit i w =
     (if i \<in> running w
      then w\<lparr>running := running w - {i}, terminals := AList.delete i (terminals w)\<rparr>
      else w)"

definition ptyKill :: "tid \<Rightarrow> world \<Rightarrow> world" where
  "ptyKill i w = w\<lparr>trace := trace w @ [PtyKill i]\<rparr>"

text \<open>The data callback of a running process, applied to its session object.\<close>

definition processData :: "tid \<Rightarrow> string \<Rightarrow> world \<Rightarrow> world" where
  "processData i d w =
     (if i \<in> running w
      then (case map_of (terminals w) i of
              None \<Rightarrow> w
            | Some session \<Rightarrow> w\<lparr>terminals := AList.update i (onData session d) (terminals w)\<rparr>)
      else w)"

definition sleep :: "int \<Rightarrow> world \<Rightarrow> world" where
  "sleep ms w = w\<lparr>clock := clock w + ms\<rparr>"

text \<open>\<^verbatim>\<open>loadProjectConfig\<close> after the file has been read and parsed.\<close>

definition loadProjectConfig :: "ProjectConfig \<Rightarrow> world \<Rightarrow> world \<times> (error + ProjectConfig)" where
  "loadProjectConfig config w =
     (if p_id config = [] \<or> p_name config = [] \<or> rootPath config = []
      then (w, Inl InvalidConfig)
      else (w\<lparr>projects := AList.update (p_id config) config (projects w)\<rparr>, Inr config))"

section \<open>Command completion: \<^verbatim>\<open>executeCommand\<close> and \<^verbatim>\<open>waitForOutput\<close>\<close>

text \<open>
  A promise is pending until the first \<^verbatim>\<open>resolve\<close> or \<^verbatim>\<open>reject\<close>; later calls change
  nothing. A regular expression is its printed form and its \<^verbatim>\<open>test\<close>.
\<close>

datatype 'a promise = Pending | Resolved 'a | Rejected error

definition settle :: "'a promise \<Rightarrow> 'a promise \<Rightarrow> 'a promise" where
  "settle p v = (case p of Pending \<Rightarrow> v | Resolved x \<Rightarrow> p | Rejected e \<Rightarrow> p)"

record RegExp =
  rx_text :: string
  rx_test :: "string \<Rightarrow> bool"

text \<open>JavaScript's \<^verbatim>\<open>s || d\<close> on strings: the empty string is falsy.\<close>

definition orElse :: "string \<Rightarrow> string \<Rightarrow> string" where
  "orElse s d = (if s = [] then d else s)"

definition getNewOutput :: "nat \<Rightarrow> TerminalSession \<Rightarrow> string" where
  "getNewOutput beforeLength terminal = concat (drop beforeLength (t_output terminal))"

text \<open>
  What a wait keeps between two firings of its interval timer: whether the interval is
  still set, the two variables of the stability loop, and the caller's promise.
\<close>

record waiter =
  timer :: bool
  lastOutput :: string
  stableCount :: nat
  outcome :: "string promise"

definition newWaiter :: waiter where
  "newWaiter = \<lparr>timer = True, lastOutput = [], stableCount = 0, outcome = Pending\<rparr>"

definition settledWaiter :: "string promise \<Rightarrow> waiter" where
  "settledWaiter r = \<lparr>timer = False, lastOutput = [], stableCount = 0, outcome = r\<rparr>"

text \<open>
  The three interval callbacks, each constructor carrying what its closure captured:
  the pattern branch of \<^verbatim>\<open>executeCommand\<close> (pattern, timeout, start time, buffer length
  at issue), its stability branch (timeout, buffer length at issue), and \<^verbatim>\<open>waitForOutput\<close>
  (pattern, timeout, start time, buffer length at the call).
\<close>

datatype wait_kind =
    ExecPattern RegExp int int nat
  | ExecStability int nat
  | WaitForOutput RegExp int int nat

definition patternTick ::
  "RegExp \<Rightarrow> int \<Rightarrow> int \<Rightarrow> nat \<Rightarrow> int \<Rightarrow> TerminalSession \<times> waiter \<Rightarrow> TerminalSession \<times> waiter" where
  "patternTick pattern timeout startTime beforeLength now tw =
     (let terminal = fst tw; wt = snd tw;
          out = getNewOutput beforeLength terminal
      in if rx_test pattern out \<or> now - startTime > timeout
         then (terminal\<lparr>outputReady := True\<rparr>,
               wt\<lparr>timer := False,
                  outcome := settle (outcome wt) (Resolved (orElse out ''Command executed (no output)''))\<rparr>)
         else (terminal, wt))"

definition stabilityTick ::
  "int \<Rightarrow> nat \<Rightarrow> int \<Rightarrow> TerminalSession \<times> waiter \<Rightarrow> TerminalSession \<times> waiter" where
  "stabilityTick timeout beforeLength now tw =
     (let terminal = fst tw; wt = snd tw;
          currentOutput = getNewOutput beforeLength terminal;
          tw1 =
            (if currentOutput = lastOutput wt
             then (let wt' = wt\<lparr>stableCount := stableCount wt + 1\<rparr>
                   in if stableCount wt' \<ge> 3
                      then (terminal\<lparr>outputReady := True\<rparr>,
                            wt'\<lparr>timer := False,
                                outcome := settle (outcome wt')
                                  (Resolved (orElse currentOutput ''Command executed (no output)''))\<rparr>)
                      else (terminal, wt'))
             else (terminal, wt\<lparr>stableCount := 0, lastOutput := currentOutput\<rparr>));
          terminal1 = fst tw1; wt1 = snd tw1
      in if now - commandStartTime terminal1 > timeout
         then (terminal1\<lparr>outputReady := True\<rparr>,
               wt1\<lparr>timer := False,
                   outcome := settle (outcome wt1)
                     (Resolved (orElse (lastOutput wt1)
                        ''Command executed (timeout - partial output)''))\<rparr>)
         else (terminal1, wt1))"

definition waitForOutputTick ::
  "RegExp \<Rightarrow> int \<Rightarrow> int \<Rightarrow> nat \<Rightarrow> int \<Rightarrow> TerminalSession \<times> waiter \<Rightarrow> TerminalSession \<times> waiter" where
  "waitForOutputTick pattern timeout startTime initialLength now tw =
     (let terminal = fst tw; wt = snd tw;
          out = concat (drop initialLength (t_output terminal))
      in if rx_test pattern out
         then (terminal, wt\<lparr>timer := False, outcome := settle (outcome wt) (Resolved out)\<rparr>)
         else if now - startTime > timeout
         then (terminal,
               wt\<lparr>timer := False,
                  outcome := settle (outcome wt) (Rejected (TimeoutWaiting (rx_text pattern)))\<rparr>)
         else (terminal, wt))"

text \<open>
  What can happen to a wait: its timer fires at a wall-clock time (only while the interval
  is set), the process emits a chunk, or the process exits. On exit the callbacks that
  \<^verbatim>\<open>executeCommand\<close> registered with \<^verbatim>\<open>onExit\<close> run: each clears its interval and does
  nothing else. \<^verbatim>\<open>waitForOutput\<close> registers none.
\<close>

datatype wait_event = Tick int | Data string | ProcessExit

fun waitStep :: "wait_kind \<Rightarrow> TerminalSession \<times> waiter \<Rightarrow> wait_event \<Rightarrow> TerminalSession \<times> waiter" where
  "waitStep k tw (Tick now) =
     (if timer (snd tw)
      then (case k of
              ExecPattern pattern timeout startTime beforeLength \<Rightarrow>
                patternTick pattern timeout startTime beforeLength now tw
            | ExecStability timeout beforeLength \<Rightarrow>
                stabilityTick timeout beforeLength now tw
            | WaitForOutput pattern timeout startTime initialLength \<Rightarrow>
                waitForOutputTick pattern timeout startTime initialLength now tw)
      else tw)"
| "waitStep k tw (Data d) = (onData (fst tw) d, snd tw)"
| "waitStep k tw ProcessExit =
     (case k of
        ExecPattern pattern timeout startTime beforeLength \<Rightarrow> (fst tw, (snd tw)\<lparr>timer := False\<rparr>)
      | ExecStability timeout beforeLength \<Rightarrow> (fst tw, (snd tw)\<lparr>timer := False\<rparr>)
      | WaitForOutput pattern timeout startTime initialLength \<Rightarrow> tw)"

definition runWait :: "wait_kind \<Rightarrow> wait_event list \<Rightarrow> TerminalSession \<times> waiter \<Rightarrow> TerminalSession \<times> waiter" where
  "runWait k evs tw = foldl (waitStep k) tw evs"

text \<open>
  The body of the promise that \<^verbatim>\<open>executeCommand\<close> returns, up to the point where it
  installs a timer: the new state of the world, the session object the timer will read,
  the timer installed (if any) and the state of the promise.
\<close>

definition executeCommand ::
  "tid \<Rightarrow> string \<Rightarrow> bool \<Rightarrow> int \<Rightarrow> RegExp option \<Rightarrow> world \<Rightarrow>
     world \<times> TerminalSession option \<times> wait_kind option \<times> waiter" where
  "executeCommand terminalId command waitForOutput timeout pattern w =
     (case map_of (terminals w) terminalId of
        None \<Rightarrow> (w, None, None, settledWaiter (Rejected (TerminalNotFound terminalId)))
      | Some terminal0 \<Rightarrow>
          (let terminal = terminal0\<lparr>commandHistory := commandHistory terminal0 @ [command],
                                    lastCommand := command,
                                    commandStartTime := clock w,
                                    outputReady := False\<rparr>;
               beforeLength = length (t_output terminal);
               w1 = ptyWrite (t_id terminal) (command @ CR)
                      (w\<lparr>terminals := AList.update terminalId terminal (terminals w)\<rparr>)
           in if \<not> waitForOutput
              then (w1, Some terminal, None,
                    settledWaiter (Resolved ''Command sent (not waiting for output)''))
              else (case pattern of
                      Some rx \<Rightarrow>
                        (w1, Some terminal, Some (ExecPattern rx timeout (clock w) beforeLength), newWaiter)
                    | None \<Rightarrow>
                        (w1, Some terminal, Some (ExecStability timeout beforeLength), newWaiter))))"

text \<open>
  \<^verbatim>\<open>waitForOutput\<close> up to the point where it installs its timer: it throws when the
  terminal is unknown, and otherwise captures the time and the length of the buffer.
\<close>

definition waitForOutput :: "tid \<Rightarrow> RegExp \<Rightarrow> int \<Rightarrow> world \<Rightarrow> wait_kind option \<times> waiter" where
  "waitForOutput terminalId pattern timeout w =
     (case map_of (terminals w) terminalId of
        None \<Rightarrow> (None, settledWaiter (Rejected (TerminalNotFound terminalId)))
      | Some terminal \<Rightarrow>
          (Some (WaitForOutput pattern timeout (clock w) (length (t_output terminal))), newWaiter))"

text \<open>
  The sequence of values that the stability loop samples while a list of events unfolds:
  one sample of the new output for each firing of the timer.
\<close>

fun samplesOf :: "nat \<Rightarrow> TerminalSession \<Rightarrow> wait_event list \<Rightarrow> string list" where
  "samplesOf b t [] = []"
| "samplesOf b t (Tick now # evs) = getNewOutput b t # samplesOf b t evs"
| "samplesOf b t (Data d # evs) = samplesOf b (onData t d) evs"
| "samplesOf b t (ProcessExit # evs) = samplesOf b t evs"

text \<open>Four equal values in a row somewhere in a sequence.\<close>

fun fourAlike :: "string list \<Rightarrow> bool" where
  "fourAlike (a # b # c # d # xs) = ((a = b \<and> b = c \<and> c = d) \<or> fourAlike (b # c # d # xs))"
| "fourAlike xs = False"

section \<open>Tool handlers on the registry\<close>

text \<open>
  A handler returns the new state of the world together with its reply or the error it
  throws; what it did before throwing stays done. The reply texts of the source are kept
  as structured values. \<^verbatim>\<open>path.join\<close> is a parameter \<open>pj\<close> of the handlers that call it.
\<close>

datatype setupLine =
    StepBegin int nat string
  | StepCompleted string
  | StepFailed string string
  | StepFailedAllowed string string

datatype reply =
    ClosedTerminal string
  | SetupReply string "setupLine list" tid
  | StartedReply string "(string \<times> tid) list" nat
  | StoppedReply string nat

definition startsWith :: "string \<Rightarrow> string \<Rightarrow> bool" where
  "startsWith s pre = (take (length pre) s = pre)"

definition close_terminal :: "tid \<Rightarrow> world \<Rightarrow> world \<times> (error + reply)" where
  "close_terminal terminalId w =
     (case map_of (terminals w) terminalId of
        None \<Rightarrow> (w, Inl (TerminalNotFound terminalId))
      | Some terminal \<Rightarrow>
          (let w1 = ptyKill (t_id terminal) w;
               w2 = w1\<lparr>terminals := AList.delete terminalId (terminals w1)\<rparr>
           in (w2, Inr (ClosedTerminal (t_name terminal)))))"

definition closeOne :: "world \<Rightarrow> TerminalSession \<Rightarrow> world" where
  "closeOne w terminal =
     (let w1 = ptyKill (t_id terminal) w
      in w1\<lparr>terminals := AList.delete (t_id terminal) (terminals w1)\<rparr>)"

definition stop_project :: "string \<Rightarrow> world \<Rightarrow> world \<times> (error + reply)" where
  "stop_project projectId w =
     (case map_of (projects w) projectId of
        None \<Rightarrow> (w, Inl (ProjectNotFound projectId))
      | Some project \<Rightarrow>
          (let terminalsToClose =
                 map snd (filter (\<lambda>(i, terminal). startsWith (t_name terminal) (p_name project @ ''-''))
                                 (terminals w));
               w' = foldl closeOne w terminalsToClose
           in (w', Inr (StoppedReply (p_name project) (length terminalsToClose)))))"

text \<open>
  The loop of \<^verbatim>\<open>setup_project\<close> over \<^verbatim>\<open>stepsToRun\<close>, whose entries are steps or
  \<^verbatim>\<open>undefined\<close> (\<open>None\<close>). Reading \<^verbatim>\<open>step.name\<close> of \<^verbatim>\<open>undefined\<close> throws a type error, outside
  the loop's own \<^verbatim>\<open>try\<close>. Inside the \<^verbatim>\<open>try\<close>, \<open>wfail\<close> tells whether writing a command line
  throws, and with which message.
\<close>

fun setupLoop ::
  "(string \<Rightarrow> string \<Rightarrow> string) \<Rightarrow> (string \<Rightarrow> string option) \<Rightarrow> ProjectConfig \<Rightarrow> int option \<Rightarrow>
   tid \<Rightarrow> ProjectSetupStep option list \<Rightarrow> nat \<Rightarrow> setupLine list \<Rightarrow> world \<Rightarrow>
   world \<times> (error + setupLine list)" where
  "setupLoop pj wfail project stepIndex tm [] i results w = (w, Inr results)"
| "setupLoop pj wfail project stepIndex tm (stepOpt # rest) i results w =
     (case stepOpt of
        None \<Rightarrow> (w, Inl (TypeError ''Cannot read properties of undefined (reading name)''))
      | Some step \<Rightarrow>
          (let stepNum = (case stepIndex of Some k \<Rightarrow> k + 1 | None \<Rightarrow> int i + 1);
               total = (case stepIndex of Some k \<Rightarrow> 1 | None \<Rightarrow> length (setupSteps project));
               results1 = results @ [StepBegin stepNum total (st_name step)];
               dir = (case workingDir step of
                        None \<Rightarrow> rootPath project
                      | Some d \<Rightarrow> if d = [] then rootPath project else pj (rootPath project) d);
               line = ''cd '' @ DQ @ dir @ DQ @ '' && '' @ st_command step @ CR
           in (case wfail line of
                 None \<Rightarrow>
                   setupLoop pj wfail project stepIndex tm rest (Suc i)
                     (results1 @ [StepCompleted (st_name step)])
                     (sleep 2000 (ptyWrite tm line w))
               | Some err \<Rightarrow>
                   if allowFailure step = Some True
                   then setupLoop pj wfail project stepIndex tm rest (Suc i)
                          (results1 @ [StepFailedAllowed (st_name step) err]) w
                   else (w, Inr (results1 @ [StepFailed (st_name step) err])))))"

text \<open>\<^verbatim>\<open>xs[i]\<close> for a JavaScript number \<open>i\<close> that is an integer: \<^verbatim>\<open>undefined\<close> out of range.\<close>

definition jsIndex :: "'a list \<Rightarrow> int \<Rightarrow> 'a option" where
  "jsIndex xs i = (if 0 \<le> i \<and> nat i < length xs then Some (xs ! nat i) else None)"

definition setup_project ::
  "(string \<Rightarrow> string \<Rightarrow> string) \<Rightarrow> (string \<Rightarrow> string option) \<Rightarrow> string \<Rightarrow> int option \<Rightarrow> world \<Rightarrow>
   world \<times> (error + reply)" where
  "setup_project pj wfail projectId stepIndex w =
     (case map_of (projects w) projectId of
        None \<Rightarrow> (w, Inl (ProjectNotFound projectId))
      | Some project \<Rightarrow>
          (let created = createTerminal (p_name project @ ''-setup'') (rootPath project) w;
               terminal = fst created; w1 = snd created;
               stepsToRun = (case stepIndex of
                               Some k \<Rightarrow> [jsIndex (setupSteps project) k]
                             | None \<Rightarrow> map Some (setupSteps project))
           in (case setupLoop pj wfail project stepIndex (t_id terminal) stepsToRun 0 [] w1 of
                 (w2, Inl e) \<Rightarrow> (w2, Inl e)
               | (w2, Inr results) \<Rightarrow>
                   (w2, Inr (SetupReply (p_name project) results (t_id terminal))))))"

section \<open>\<^verbatim>\<open>start_project\<close>: starting services after their dependencies\<close>

text \<open>
  The variables one invocation of \<^verbatim>\<open>start_project\<close> closes over: the world, the set
  \<^verbatim>\<open>started\<close>, the report lines (service name and terminal identifier) and the terminals
  it created (by identifier).
\<close>

record startState =
  sworld :: world
  started :: "string set"
  results :: "(string \<times> tid) list"
  createdTerminals :: "tid list"

text \<open>The block guarded by \<^verbatim>\<open>if (service.startCommand)\<close>, for a non-empty command.\<close>

definition launch ::
  "(string \<Rightarrow> string \<Rightarrow> string) \<Rightarrow> ProjectConfig \<Rightarrow> ProjectService \<Rightarrow> string \<Rightarrow> startState \<Rightarrow> startState" where
  "launch pj project service cmd st =
     (let created = createTerminal (p_name project @ ''-'' @ s_name service)
                      (pj (rootPath project) (s_path service)) (sworld st);
          terminal = fst created; w1 = snd created;
          w2 = (case envVars service of
                  None \<Rightarrow> w1
                | Some vars \<Rightarrow>
                    foldl (\<lambda>w (key, val). ptyWrite (t_id terminal)
                             (''export '' @ key @ ''='' @ DQ @ val @ DQ @ CR) w) w1 vars);
          w3 = ptyWrite (t_id terminal) (cmd @ CR) w2
      in \<lparr>sworld = sleep 1000 w3,
          started = insert (s_name service) (started st),
          results = results st @ [(s_name service, t_id terminal)],
          createdTerminals = createdTerminals st @ [t_id terminal]\<rparr>)"

text \<open>
  The loop over \<^verbatim>\<open>service.dependsOn\<close>; \<open>again\<close> is the recursive call of \<^verbatim>\<open>startService\<close>.
  A name that no service bears is passed over, and so is one already started.
\<close>

fun startDeps ::
  "(ProjectService \<Rightarrow> startState \<Rightarrow> startState option) \<Rightarrow> ProjectConfig \<Rightarrow> string list \<Rightarrow>
   startState \<Rightarrow> startState option" where
  "startDeps again project [] st = Some st"
| "startDeps again project (dep # deps) st =
     (case find (\<lambda>s. s_name s = dep) (services project) of
        None \<Rightarrow> startDeps again project deps st
      | Some depService \<Rightarrow>
          if dep \<in> started st then startDeps again project deps st
          else (case again depService st of
                  None \<Rightarrow> None
                | Some st' \<Rightarrow> startDeps again project deps st'))"

text \<open>
  \<^verbatim>\<open>startService\<close>, with the depth of recursion it may use as its first argument: \<open>None\<close>
  when that depth does not suffice, as it never does on a dependency cycle.
\<close>

primrec startService ::
  "nat \<Rightarrow> (string \<Rightarrow> string \<Rightarrow> string) \<Rightarrow> ProjectConfig \<Rightarrow> ProjectService \<Rightarrow> startState \<Rightarrow>
   startState option" where
  "startService 0 pj project = (\<lambda>service st. None)"
| "startService (Suc n) pj project = (\<lambda>service st.
     if s_name service \<in> started st then Some st
     else (case (case dependsOn service of
                   None \<Rightarrow> Some st
                 | Some deps \<Rightarrow> startDeps (startService n pj project) project deps st) of
             None \<Rightarrow> None
           | Some st1 \<Rightarrow>
               (case startCommand service of
                  None \<Rightarrow> Some st1
                | Some cmd \<Rightarrow> if cmd = [] then Some st1 else Some (launch pj project service cmd st1))))"

fun startAll ::
  "nat \<Rightarrow> (string \<Rightarrow> string \<Rightarrow> string) \<Rightarrow> ProjectConfig \<Rightarrow> ProjectService list \<Rightarrow> startState \<Rightarrow>
   startState option" where
  "startAll n pj project [] st = Some st"
| "startAll n pj project (service # rest) st =
     (case startService n pj project service st of
        None \<Rightarrow> None
      | Some st' \<Rightarrow> startAll n pj project rest st')"

definition start_project ::
  "nat \<Rightarrow> (string \<Rightarrow> string \<Rightarrow> string) \<Rightarrow> string \<Rightarrow> string list option \<Rightarrow> world \<Rightarrow>
   (world \<times> (error + reply)) option" where
  "start_project n pj projectId serviceNames w =
     (case map_of (projects w) projectId of
        None \<Rightarrow> Some (w, Inl (ProjectNotFound projectId))
      | Some project \<Rightarrow>
          (let servicesToStart =
                 (case serviceNames of
                    None \<Rightarrow> services project
                  | Some names \<Rightarrow> filter (\<lambda>s. s_name s \<in> set names) (services project))
           in (case startAll n pj project servicesToStart
                      \<lparr>sworld = w, started = {}, results = [], createdTerminals = []\<rparr> of
                 None \<Rightarrow> None
               | Some st \<Rightarrow>
                   Some (sworld st,
                         Inr (StartedReply (p_name project) (results st)
                                (length (createdTerminals st)))))))"

section \<open>Runs of the server\<close>

text \<open>
  What changes the registry between the start of the server and any later moment: a
  project is loaded, a terminal is created (by any handler, all of which go through
  \<^verbatim>\<open>createTerminal\<close>), a command is issued, a terminal is closed, a project is set up or
  stopped, a process emits output, a process exits.
\<close>

datatype event =
    LoadProject ProjectConfig
  | CreateTerminal string string
  | ExecuteCommand tid string bool
  | CloseTerminal tid
  | SetupProject string "int option"
  | StopProject string
  | ProcessData tid string
  | ProcessExited tid

fun step ::
  "(string \<Rightarrow> string \<Rightarrow> string) \<Rightarrow> (string \<Rightarrow> string option) \<Rightarrow> world \<Rightarrow> event \<Rightarrow> world" where
  "step pj wfail w (LoadProject config) = fst (loadProjectConfig config w)"
| "step pj wfail w (CreateTerminal nm dir) = snd (createTerminal nm dir w)"
| "step pj wfail w (ExecuteCommand i command wait) = fst (executeCommand i command wait 10000 None w)"
| "step pj wfail w (CloseTerminal i) = fst (close_terminal i w)"
| "step pj wfail w (SetupProject projectId stepIndex) = fst (setup_project pj wfail projectId stepIndex w)"
| "step pj wfail w (StopProject projectId) = fst (stop_project projectId w)"
| "step pj wfail w (ProcessData i d) = processData i d w"
| "step pj wfail w (ProcessExited i) = processExit i w"

definition run ::
  "(string \<Rightarrow> string \<Rightarrow> string) \<Rightarrow> (string \<Rightarrow> string option) \<Rightarrow> event list \<Rightarrow> world \<Rightarrow> world" where
  "run pj wfail evs w = foldl (step pj wfail) w evs"

section \<open>Predicates on the registry\<close>

text \<open>
  What \<^verbatim>\<open>createTerminal\<close>, the exit callback and the handlers that delete maintain between
  them: the keys of the registry are pairwise different, each of them is the identifier of
  a running process, each session is stored under its own identifier, and every key has
  been handed out already.
\<close>

definition registry_ok :: "world \<Rightarrow> bool" where
  "registry_ok w =
     (distinct (map fst (terminals w)) \<and>
      fst ` set (terminals w) \<subseteq> running w \<and>
      list_all (\<lambda>(i, t). t_id t = i) (terminals w) \<and>
      list_all (\<lambda>(i, t). i < nextId w) (terminals w))"

text \<open>The test of \<^verbatim>\<open>stop_project\<close> on an entry of the registry.\<close>

definition ownedBy :: "ProjectConfig \<Rightarrow> tid \<times> TerminalSession \<Rightarrow> bool" where
  "ownedBy project e = startsWith (t_name (snd e)) (p_name project @ ''-'')"

text \<open>A project and a world to evaluate the handlers on.\<close>

definition demoJoin :: "string \<Rightarrow> string \<Rightarrow> string" where
  "demoJoin a b = a @ ''/'' @ b"

definition demoProject :: ProjectConfig where
  "demoProject =
     \<lparr>p_id = ''app'', p_name = ''app'', rootPath = ''/srv/app'',
      services =
        [\<lparr>s_name = ''api'', s_path = ''api'', startCommand = Some ''npm start'',
          buildCommand = None, testCommand = None,
          envVars = Some [(''PORT'', ''3000'')], dependsOn = Some [''db'', ''cache'']\<rparr>,
         \<lparr>s_name = ''db'', s_path = ''db'', startCommand = Some ''postgres'',
          buildCommand = None, testCommand = None, envVars = None, dependsOn = None\<rparr>,
         \<lparr>s_name = ''docs'', s_path = ''docs'', startCommand = None,
          buildCommand = Some ''make html'', testCommand = None, envVars = None,
          dependsOn = Some [''api'']\<rparr>],
      setupSteps =
        [\<lparr>st_name = ''install'', st_command = ''npm install'', description = None,
          workingDir = None, allowFailure = None\<rparr>],
      commonCommands = []\<rparr>"

definition demoWorld :: world where
  "demoWorld =
     run demoJoin (\<lambda>line. None)
       [LoadProject demoProject, CreateTerminal ''app-api'' ''/srv/app/api'',
        CreateTerminal ''web-ui'' ''/srv/web'']
       initWorld"

section \<open>Dependency order: what the claims speak of\<close>

text \<open>The name \<^verbatim>\<open>startService\<close> gives the terminal of a service.\<close>

definition sessionName :: "ProjectConfig \<Rightarrow> ProjectService \<Rightarrow> string" where
  "sessionName project service = p_name project @ ''-'' @ s_name service"

text \<open>Whether \<^verbatim>\<open>service.startCommand\<close> is truthy: present and not the empty string.\<close>

definition hasStart :: "ProjectService \<Rightarrow> bool" where
  "hasStart service = (case startCommand service of None \<Rightarrow> False | Some cmd \<Rightarrow> cmd \<noteq> [])"

text \<open>The line written to start a service: its start command and a carriage return.\<close>

definition startLine :: "ProjectService \<Rightarrow> string" where
  "startLine service = (case startCommand service of None \<Rightarrow> CR | Some cmd \<Rightarrow> cmd @ CR)"

text \<open>The services that the names in \<^verbatim>\<open>dependsOn\<close> resolve to, by the same \<^verbatim>\<open>find\<close> over all the services of the project; names that resolve to nothing are left out.\<close>

definition directDeps :: "ProjectConfig \<Rightarrow> ProjectService \<Rightarrow> ProjectService list" where
  "directDeps project service =
     (case dependsOn service of
        None \<Rightarrow> []
      | Some deps \<Rightarrow> List.map_filter (\<lambda>dep. find (\<lambda>s. s_name s = dep) (services project)) deps)"

text \<open>The dependency graph of a project: an edge from each resolved dependency to the service that names it.\<close>

definition depEdges :: "ProjectConfig \<Rightarrow> (ProjectService \<times> ProjectService) set" where
  "depEdges project =
     set (concat (map (\<lambda>s. map (\<lambda>d. (d, s)) (directDeps project s)) (services project)))"

text \<open>A trace in which a terminal for the service is spawned and later receives the start line.\<close>

definition startedIn :: "ProjectConfig \<Rightarrow> ProjectService \<Rightarrow> effect list \<Rightarrow> bool" where
  "startedIn project service tr =
     (\<exists>i dir xs ys zs.
        tr = xs @ Spawn i (sessionName project service) dir # ys @ PtyWrite i (startLine service) # zs)"

text \<open>In a trace, wherever a terminal is spawned for a service of the project, the start line of that service is written to it afterwards, and every direct dependency that has a start command was spawned and given its start line before.\<close>

definition depsFirst :: "ProjectConfig \<Rightarrow> effect list \<Rightarrow> bool" where
  "depsFirst project tr =
     (\<forall>s \<in> set (services project). \<forall>xs i dir ys.
        tr = xs @ Spawn i (sessionName project s) dir # ys \<longrightarrow>
          (\<exists>ys' zs. ys = ys' @ PtyWrite i (startLine s) # zs) \<and>
          (\<forall>d \<in> set (directDeps project s). hasStart d \<longrightarrow> startedIn project d xs))"

text \<open>How many terminals of a given name a trace spawns.\<close>

definition spawnCount :: "string \<Rightarrow> effect list \<Rightarrow> nat" where
  "spawnCount nm tr =
     length (filter (\<lambda>e. case e of Spawn i n d \<Rightarrow> n = nm | PtyWrite i t \<Rightarrow> False | PtyKill i \<Rightarrow> False) tr)"

text \<open>What a handler added to the trace.\<close>

definition newTrace :: "world \<Rightarrow> world \<Rightarrow> effect list" where
  "newTrace w w' = drop (length (trace w)) (trace w')"

text \<open>The services \<^verbatim>\<open>start_project\<close> iterates over.\<close>

definition servicesToStart :: "ProjectConfig \<Rightarrow> string list option \<Rightarrow> ProjectService list" where
  "servicesToStart project serviceNames =
     (case serviceNames of
        None \<Rightarrow> services project
      | Some names \<Rightarrow> filter (\<lambda>s. s_name s \<in> set names) (services project))"

text \<open>The lines that export the environment variables of a service.\<close>

definition envLines :: "ProjectService \<Rightarrow> string list" where
  "envLines service =
     (case envVars service of
        None \<Rightarrow> []
      | Some vars \<Rightarrow> map (\<lambda>(key, val). ''export '' @ key @ ''='' @ DQ @ val @ DQ @ CR) vars)"

text \<open>The list the dependency loop runs over.\<close>

definition depNames :: "ProjectService \<Rightarrow> string list" where
  "depNames service = (case dependsOn service of None \<Rightarrow> [] | Some deps \<Rightarrow> deps)"

text \<open>The invariant of one invocation: dependencies first, every started service with a command has its terminal and start line, and a terminal is spawned for a service exactly when its name is in the started set.\<close>

definition goodTrace :: "ProjectConfig \<Rightarrow> string set \<Rightarrow> effect list \<Rightarrow> bool" where
  "goodTrace project S tr =
     (depsFirst project tr \<and>
      (\<forall>s \<in> set (services project). hasStart s \<longrightarrow> s_name s \<in> S \<longrightarrow> startedIn project s tr) \<and>
      (\<forall>s \<in> set (services project).
         spawnCount (sessionName project s) tr = (if s_name s \<in> S then 1 else 0)))"

text \<open>The invariant on the state of an invocation whose trace began as \<open>base\<close>.\<close>

definition good :: "ProjectConfig \<Rightarrow> effect list \<Rightarrow> startState \<Rightarrow> bool" where
  "good project base st =
     (\<exists>tr. trace (sworld st) = base @ tr \<and> goodTrace project (started st) tr)"

text \<open>The services from which a direct dependency of the service can be reached.\<close>

definition strictBelow :: "ProjectConfig \<Rightarrow> ProjectService \<Rightarrow> ProjectService set" where
  "strictBelow project s = {y. \<exists>d \<in> set (directDeps project s). (y, d) \<in> (depEdges project)\<^sup>*}"

text \<open>The services that one of the given services is, or depends on directly or through other services.\<close>

definition reached :: "ProjectConfig \<Rightarrow> ProjectService list \<Rightarrow> ProjectService set" where
  "reached project xs = {y. \<exists>r \<in> set xs. (y, r) \<in> (depEdges project)\<^sup>*}"

text \<open>A set of names that holds every service with a start command that the service is or depends on.\<close>

definition allBelow :: "ProjectConfig \<Rightarrow> ProjectService \<Rightarrow> string set \<Rightarrow> bool" where
  "allBelow project x S = (\<forall>y. (y, x) \<in> (depEdges project)\<^sup>* \<longrightarrow> hasStart y \<longrightarrow> s_name y \<in> S)"

text \<open>A started set that, with each service of the project it names, holds all that the service depends on.\<close>

definition complete :: "ProjectConfig \<Rightarrow> string set \<Rightarrow> bool" where
  "complete project S = (\<forall>x \<in> set (services project). s_name x \<in> S \<longrightarrow> allBelow project x S)"

text \<open>A project in which two services share a dependency, and a world that has loaded it.\<close>

definition webService :: ProjectService where
  "webService =
     \<lparr>s_name = ''web'', s_path = ''web'', startCommand = Some ''npm run web'',
      buildCommand = None, testCommand = None, envVars = None, dependsOn = Some [''db'']\<rparr>"

definition workerService :: ProjectService where
  "workerService =
     \<lparr>s_name = ''worker'', s_path = ''worker'', startCommand = Some ''npm run worker'',
      buildCommand = None, testCommand = None, envVars = None, dependsOn = Some [''db'']\<rparr>"

definition dbService :: ProjectService where
  "dbService =
     \<lparr>s_name = ''db'', s_path = ''db'', startCommand = Some ''postgres'',
      buildCommand = None, testCommand = None, envVars = None, dependsOn = None\<rparr>"

definition shopProject :: ProjectConfig where
  "shopProject =
     \<lparr>p_id = ''shop'', p_name = ''shop'', rootPath = ''/srv/shop'',
      services = [webService, workerService, dbService],
      setupSteps = [], commonCommands = []\<rparr>"

definition shopWorld :: world where
  "shopWorld = run demoJoin (\<lambda>line. None) [LoadProject shopProject] initWorld"

section \<open>The output buffer is bounded\<close>

lemma onData_output:
  "t_output (onData s d) =
     (if length (t_output s) \<ge> 1000 then tl (t_output s @ [d]) else t_output s @ [d])"
  by (simp add: onData_def Let_def)

lemma onData_fold_output:
  "length (t_output s) \<le> 1000 \<Longrightarrow>
   t_output (foldl onData s ds) = drop (length (t_output s) + length ds - 1000) (t_output s @ ds)"
proof (induction ds arbitrary: s)
  case Nil
  then show ?case by simp
next
  case (Cons d ds)
  let ?s1 = "onData s d"
  show ?case
  proof (cases "length (t_output s) = 1000")
    case True
    then have o1: "t_output ?s1 = tl (t_output s) @ [d]"
      by (cases "t_output s") (simp_all add: onData_output)
    then have len1: "length (t_output ?s1) = 1000"
      using True by simp
    have "t_output (foldl onData ?s1 ds) = drop (length ds) (tl (t_output s) @ [d] @ ds)"
      using Cons.IH [of ?s1] len1 o1 by simp
    also have "\<dots> = drop (Suc (length ds)) (t_output s @ d # ds)"
      using True by (cases "t_output s") simp_all
    finally show ?thesis
      using True by simp
  next
    case False
    with Cons.prems have lt: "length (t_output s) < 1000" by simp
    then have o1: "t_output ?s1 = t_output s @ [d]"
      by (simp add: onData_output)
    then have "length (t_output ?s1) \<le> 1000"
      using lt by simp
    from Cons.IH [OF this] o1 show ?thesis
      by simp
  qed
qed

text \<open>
  Claim C8. After any number of output events delivered to a freshly created session, the
  buffer holds at most 1000 chunks: it holds the last 1000 chunks emitted (all of them
  when fewer were emitted), the older ones having been evicted from the front.
\<close>

theorem output_buffer_bounded:
  "length (t_output (foldl onData (newSession i nm dir now) ds)) \<le> 1000 \<and>
   t_output (foldl onData (newSession i nm dir now) ds) = drop (length ds - 1000) ds"
proof -
  have "t_output (foldl onData (newSession i nm dir now) ds) = drop (length ds - 1000) ds"
    using onData_fold_output [of "newSession i nm dir now" ds]
    by (simp add: newSession_def)
  then show ?thesis by simp
qed

section \<open>Waits: what a timer tick and a process exit do\<close>

lemma runWait_Cons: "runWait k (e # evs) tw = runWait k evs (waitStep k tw e)"
  by (simp add: runWait_def)

lemma idle_wait_inert:
  "\<not> timer (snd tw) \<Longrightarrow>
   snd (runWait k evs tw) = snd tw"
proof (induction evs arbitrary: tw)
  case Nil
  then show ?case by (simp add: runWait_def)
next
  case (Cons e evs)
  have step: "snd (waitStep k tw e) = snd tw"
    using Cons.prems by (cases e; cases k) simp_all
  then have "\<not> timer (snd (waitStep k tw e))"
    using Cons.prems by simp
  from Cons.IH [OF this] step show ?case
    by (simp add: runWait_def)
qed

text \<open>
  Claim C1 (the code departs from it). A shell is created, \<^verbatim>\<open>exit\<close> is issued through
  \<^verbatim>\<open>executeCommand\<close>, once under the stability policy and once under the pattern policy,
  the timer fires once and the process exits. The exit callback clears the interval, so the
  timer is released; but nothing settles the promise, and whatever happens afterwards it
  stays pending.
\<close>

theorem exit_mid_wait_leaves_promise_pending:
  "\<forall>evs.
     (case executeCommand 0 ''exit'' True 10000 None (snd (createTerminal ''shell'' ''/tmp'' initWorld)) of
        (w, terminal, k, wt) \<Rightarrow>
          outcome wt = Pending \<and> timer wt \<and>
          outcome (snd (runWait (the k) (Tick 100 # ProcessExit # evs) (the terminal, wt))) = Pending \<and>
          \<not> timer (snd (runWait (the k) (Tick 100 # ProcessExit # evs) (the terminal, wt)))) \<and>
     (case executeCommand 0 ''exit'' True 10000
             (Some \<lparr>rx_text = ''/done/'', rx_test = (\<lambda>s. s = ''done'')\<rparr>)
             (snd (createTerminal ''shell'' ''/tmp'' initWorld)) of
        (w, terminal, k, wt) \<Rightarrow>
          outcome wt = Pending \<and> timer wt \<and>
          outcome (snd (runWait (the k) (Tick 100 # ProcessExit # evs) (the terminal, wt))) = Pending \<and>
          \<not> timer (snd (runWait (the k) (Tick 100 # ProcessExit # evs) (the terminal, wt))))"
  by (simp add: executeCommand_def createTerminal_def initWorld_def newSession_def ptyWrite_def
      Let_def runWait_Cons newWaiter_def stabilityTick_def patternTick_def getNewOutput_def
      idle_wait_inert)









section \<open>The stability policy\<close>

lemma suffix_snoc2: "suffix [a, b] (h @ [c]) = (b = c \<and> suffix [a] h)"
  using snoc_suffix_snoc [of "[a]" b h c] by simp

lemma suffix_snoc3: "suffix [a, b, c] (h @ [d]) = (c = d \<and> suffix [a, b] h)"
  using snoc_suffix_snoc [of "[a, b]" c h d] by simp

lemma suffix_single: "suffix [a] h = (h \<noteq> [] \<and> last h = a)"
  by (cases h rule: rev_cases) (simp_all add: suffix_def)

lemma fourAlike_snoc: "fourAlike (xs @ [a]) = (fourAlike xs \<or> suffix [a, a, a] xs)"
proof (induction xs rule: fourAlike.induct)
  case (1 a b c d xs)
  then show ?case by (auto simp add: suffix_Cons)
qed (auto simp add: suffix_Cons)

lemma fourAlike_append: "fourAlike xs \<Longrightarrow> fourAlike (xs @ ys)"
proof (induction ys rule: rev_induct)
  case Nil
  then show ?case by simp
next
  case (snoc y ys)
  then have "fourAlike ((xs @ ys) @ [y])"
    by (simp only: fourAlike_snoc) simp
  then show ?case by simp
qed

lemma stabilityTick_quiet:
  assumes "now - commandStartTime t \<le> timeout" "getNewOutput b t = lastOutput wt"
    "stableCount wt < 2"
  shows "stabilityTick timeout b now (t, wt) = (t, wt\<lparr>stableCount := stableCount wt + 1\<rparr>)"
  using assms by (simp add: stabilityTick_def Let_def)

lemma stabilityTick_changed:
  assumes "now - commandStartTime t \<le> timeout" "getNewOutput b t \<noteq> lastOutput wt"
  shows "stabilityTick timeout b now (t, wt) =
           (t, wt\<lparr>stableCount := 0, lastOutput := getNewOutput b t\<rparr>)"
  using assms by (simp add: stabilityTick_def Let_def)

lemma stabilityTick_stable:
  assumes "getNewOutput b t = lastOutput wt" "2 \<le> stableCount wt" "outcome wt = Pending"
  shows "\<not> timer (snd (stabilityTick timeout b now (t, wt))) \<and>
         outcome (snd (stabilityTick timeout b now (t, wt)))
           = Resolved (orElse (getNewOutput b t) ''Command executed (no output)'')"
  using assms by (simp add: stabilityTick_def Let_def settle_def)

lemma stability_run:
  assumes "ProcessExit \<notin> set evs"
    and "\<forall>now. Tick now \<in> set evs \<longrightarrow> now - commandStartTime t \<le> timeout"
    and "timer wt" and "outcome wt = Pending"
    and "\<not> fourAlike h" and "suffix [lastOutput wt] h"
    and "(1 \<le> stableCount wt) = suffix [lastOutput wt, lastOutput wt] h"
    and "(2 \<le> stableCount wt) = suffix [lastOutput wt, lastOutput wt, lastOutput wt] h"
  shows "(outcome (snd (runWait (ExecStability timeout b) evs (t, wt))) \<noteq> Pending)
           = fourAlike (h @ samplesOf b t evs)"
  using assms
proof (induction evs arbitrary: t wt h)
  case Nil
  then show ?case by (simp add: runWait_def)
next
  case (Cons e evs)
  show ?case
  proof (cases e)
    case (Data d)
    have "commandStartTime (onData t d) = commandStartTime t"
      by (simp add: onData_def Let_def)
    with Cons.prems Data
    have "(outcome (snd (runWait (ExecStability timeout b) evs (onData t d, wt))) \<noteq> Pending)
            = fourAlike (h @ samplesOf b (onData t d) evs)"
      by (intro Cons.IH) simp_all
    with Data show ?thesis by (simp add: runWait_Cons)
  next
    case ProcessExit
    with Cons.prems show ?thesis by simp
  next
    case (Tick now)
    let ?s = "getNewOutput b t"
    let ?l = "lastOutput wt"
    from Cons.prems Tick have tm: "now - commandStartTime t \<le> timeout" by simp
    have rest: "ProcessExit \<notin> set evs"
      "\<forall>now. Tick now \<in> set evs \<longrightarrow> now - commandStartTime t \<le> timeout"
      using Cons.prems by simp_all
    have step: "runWait (ExecStability timeout b) (e # evs) (t, wt)
                  = runWait (ExecStability timeout b) evs (stabilityTick timeout b now (t, wt))"
      using Tick Cons.prems by (simp add: runWait_Cons)
    have sam: "h @ samplesOf b t (e # evs) = (h @ [?s]) @ samplesOf b t evs"
      using Tick by simp
    consider (stable) "?s = ?l" "2 \<le> stableCount wt"
      | (quiet) "?s = ?l" "stableCount wt < 2"
      | (changed) "?s \<noteq> ?l"
      by linarith
    then show ?thesis
    proof cases
      case stable
      from stabilityTick_stable [OF stable Cons.prems(4), of timeout now]
      have off: "\<not> timer (snd (stabilityTick timeout b now (t, wt)))"
        and res: "outcome (snd (stabilityTick timeout b now (t, wt))) \<noteq> Pending"
        by simp_all
      have "snd (runWait (ExecStability timeout b) evs (stabilityTick timeout b now (t, wt)))
              = snd (stabilityTick timeout b now (t, wt))"
        using off by (rule idle_wait_inert)
      with res step have lhs: "outcome (snd (runWait (ExecStability timeout b) (e # evs) (t, wt))) \<noteq> Pending"
        by simp
      have "suffix [?s, ?s, ?s] h"
        using stable Cons.prems(8) by simp
      then have "fourAlike (h @ [?s])"
        by (simp add: fourAlike_snoc)
      then have "fourAlike ((h @ [?s]) @ samplesOf b t evs)"
        by (rule fourAlike_append)
      with lhs sam show ?thesis by simp
    next
      case quiet
      let ?wt = "wt\<lparr>stableCount := stableCount wt + 1\<rparr>"
      have st: "stabilityTick timeout b now (t, wt) = (t, ?wt)"
        using tm quiet by (rule stabilityTick_quiet)
      have nf: "\<not> fourAlike (h @ [?s])"
        using Cons.prems(5,8) quiet by (simp add: fourAlike_snoc)
      have "(outcome (snd (runWait (ExecStability timeout b) evs (t, ?wt))) \<noteq> Pending)
              = fourAlike ((h @ [?s]) @ samplesOf b t evs)"
      proof (rule Cons.IH [OF rest _ _ nf])
        show "timer ?wt" using Cons.prems(3) by simp
        show "outcome ?wt = Pending" using Cons.prems(4) by simp
        show "suffix [lastOutput ?wt] (h @ [?s])"
          using quiet by (simp add: suffix_single)
        show "(1 \<le> stableCount ?wt) = suffix [lastOutput ?wt, lastOutput ?wt] (h @ [?s])"
          using quiet Cons.prems(6) by (simp add: suffix_snoc2)
        show "(2 \<le> stableCount ?wt)
                = suffix [lastOutput ?wt, lastOutput ?wt, lastOutput ?wt] (h @ [?s])"
          using quiet Cons.prems(7) by (simp add: suffix_snoc3)
      qed
      with st step sam show ?thesis by simp
    next
      case changed
      let ?wt = "wt\<lparr>stableCount := 0, lastOutput := ?s\<rparr>"
      have st: "stabilityTick timeout b now (t, wt) = (t, ?wt)"
        using tm changed by (rule stabilityTick_changed)
      have last: "h \<noteq> [] \<and> last h = ?l"
        using Cons.prems(6) by (simp add: suffix_single)
      have ns: "\<not> suffix [?s] h"
        using last changed by (simp add: suffix_single)
      have nf: "\<not> fourAlike (h @ [?s])"
      proof
        assume "fourAlike (h @ [?s])"
        then have "suffix [?s, ?s, ?s] h"
          using Cons.prems(5) by (simp add: fourAlike_snoc)
        then have "suffix [?s] h"
          by (auto simp add: suffix_def)
        with ns show False by simp
      qed
      have "(outcome (snd (runWait (ExecStability timeout b) evs (t, ?wt))) \<noteq> Pending)
              = fourAlike ((h @ [?s]) @ samplesOf b t evs)"
      proof (rule Cons.IH [OF rest _ _ nf])
        show "timer ?wt" using Cons.prems(3) by simp
        show "outcome ?wt = Pending" using Cons.prems(4) by simp
        show "suffix [lastOutput ?wt] (h @ [?s])"
          by (simp add: suffix_single)
        show "(1 \<le> stableCount ?wt) = suffix [lastOutput ?wt, lastOutput ?wt] (h @ [?s])"
          using ns by (simp add: suffix_snoc2)
        show "(2 \<le> stableCount ?wt)
                = suffix [lastOutput ?wt, lastOutput ?wt, lastOutput ?wt] (h @ [?s])"
          using ns by (auto simp add: suffix_snoc3 suffix_def)
      qed
      with st step sam show ?thesis by simp
    qed
  qed
qed

lemma fourAlike_length: "fourAlike xs \<Longrightarrow> 4 \<le> length xs"
  by (induction xs rule: fourAlike.induct) simp_all

text \<open>
  Claim C2, as amended. While the process lives and the timeout has not elapsed, the
  stability policy settles the promise exactly when the sequence made of the empty string
  followed by the samples taken so far (one per tick of the 100 ms timer) contains four
  equal values in a row: three ticks in a row at which the sample equalled the value
  recorded before it. So it never settles before the third tick.
\<close>

theorem stability_completion:
  assumes "ProcessExit \<notin> set evs"
    and "\<forall>now. Tick now \<in> set evs \<longrightarrow> now - commandStartTime t \<le> timeout"
  shows "((outcome (snd (runWait (ExecStability timeout b) evs (t, newWaiter))) \<noteq> Pending)
            = fourAlike ([] # samplesOf b t evs))
       \<and> (outcome (snd (runWait (ExecStability timeout b) evs (t, newWaiter))) = Pending
            \<or> 3 \<le> length (samplesOf b t evs))"
proof -
  have eq: "(outcome (snd (runWait (ExecStability timeout b) evs (t, newWaiter))) \<noteq> Pending)
              = fourAlike ([[]] @ samplesOf b t evs)"
    using assms by (intro stability_run) (simp_all add: newWaiter_def suffix_Cons)
  have "fourAlike ([] # samplesOf b t evs) \<Longrightarrow> 3 \<le> length (samplesOf b t evs)"
    using fourAlike_length [of "[] # samplesOf b t evs"] by simp
  with eq show ?thesis by auto
qed

theorem stability_completion_witness:
  "fourAlike ([] # samplesOf 0 (newSession 0 ''t'' ''/tmp'' 0)
       [Data ''a'', Tick 100, Tick 200, Tick 300, Tick 400])
   \<and> outcome (snd (runWait (ExecStability 10000 0)
       [Data ''a'', Tick 100, Tick 200, Tick 300, Tick 400]
       (newSession 0 ''t'' ''/tmp'' 0, newWaiter))) \<noteq> Pending"
  using stability_completion
    [of "[Data ''a'', Tick 100, Tick 200, Tick 300, Tick 400]"
        "newSession 0 ''t'' ''/tmp'' 0" 10000 0]
  by (simp add: newSession_def onData_def getNewOutput_def)

text \<open>
  Claim C2 as it was stated fails twice. With one chunk received before the first tick,
  the first three samples are byte-identical and yet after the third tick the command is
  not complete. With no output at all, the command is complete at the third tick, 300 ms
  after it was issued, not after 900 ms.
\<close>

theorem three_identical_samples_counterexample:
  "samplesOf 0 (newSession 0 ''t'' ''/tmp'' 0) [Data ''a'', Tick 100, Tick 200, Tick 300]
     = [''a'', ''a'', ''a'']
   \<and> outcome (snd (runWait (ExecStability 10000 0) [Data ''a'', Tick 100, Tick 200, Tick 300]
       (newSession 0 ''t'' ''/tmp'' 0, newWaiter))) = Pending
   \<and> outcome (snd (runWait (ExecStability 10000 0) [Tick 100, Tick 200, Tick 300]
       (newSession 0 ''t'' ''/tmp'' 0, newWaiter))) = Resolved ''Command executed (no output)''"
  by (simp add: runWait_def newSession_def newWaiter_def onData_def getNewOutput_def
      stabilityTick_def Let_def settle_def orElse_def)

section \<open>The registry and the processes\<close>

lemma set_update_subset: "set (AList.update k v al) \<subseteq> insert (k, v) (set al)"
  by (induction al) auto

lemma set_delete_subset: "set (AList.delete k al) \<subseteq> set al"
  by (auto simp add: AList.delete_eq)

lemma dom_delete: "fst ` set (AList.delete k al) = fst ` set al - {k}"
  by (force simp add: AList.delete_eq)

lemma map_of_ok:
  "list_all (\<lambda>(i, t). t_id t = i) al \<Longrightarrow> map_of al i = Some t \<Longrightarrow> t_id t = i"
  by (auto simp add: list_all_iff dest: map_of_SomeD)

lemma ok_createTerminal: "registry_ok w \<Longrightarrow> registry_ok (snd (createTerminal nm dir w))"
  unfolding registry_ok_def createTerminal_def Let_def
  using set_update_subset [of "nextId w" "newSession (nextId w) nm dir (clock w)" "terminals w"]
  by (auto simp add: distinct_update dom_update list_all_iff newSession_def less_Suc_eq)

lemma ok_ptyWrite: "registry_ok (ptyWrite i text w) = registry_ok w"
  by (simp add: registry_ok_def ptyWrite_def)

lemma ok_sleep: "registry_ok (sleep ms w) = registry_ok w"
  by (simp add: registry_ok_def sleep_def)

lemma ok_processExit: "registry_ok w \<Longrightarrow> registry_ok (processExit i w)"
  unfolding registry_ok_def processExit_def
  using set_delete_subset [of i "terminals w"]
  by (auto simp add: distinct_delete dom_delete list_all_iff)

lemma ok_ptyKill: "registry_ok (ptyKill i w) = registry_ok w"
  by (simp add: registry_ok_def ptyKill_def)

lemma ok_delete:
  "registry_ok w \<Longrightarrow> registry_ok (w\<lparr>terminals := AList.delete i (terminals w)\<rparr>)"
  using set_delete_subset [of i "terminals w"]
  by (auto simp add: registry_ok_def distinct_delete list_all_iff)

lemma processExit_not_running: "i \<notin> running (processExit i w)"
  by (simp add: processExit_def)

lemma ok_closeOne: "registry_ok w \<Longrightarrow> registry_ok (closeOne w t)"
  unfolding closeOne_def Let_def
  by (rule ok_delete) (simp add: ok_ptyKill)

lemma ok_closeAll: "registry_ok w \<Longrightarrow> registry_ok (foldl closeOne w ts)"
  by (induction ts arbitrary: w) (simp_all add: ok_closeOne)

lemma ok_close_terminal: "registry_ok w \<Longrightarrow> registry_ok (fst (close_terminal i w))"
proof (cases "map_of (terminals w) i")
  case None
  assume "registry_ok w"
  with None show ?thesis by (simp add: close_terminal_def)
next
  case (Some t)
  assume ok: "registry_ok w"
  then have "t_id t = i"
    using Some by (auto simp add: registry_ok_def intro: map_of_ok)
  with Some have "fst (close_terminal i w) = closeOne w t"
    by (simp add: close_terminal_def closeOne_def Let_def)
  with ok show ?thesis by (simp add: ok_closeOne)
qed

lemma ok_stop_project: "registry_ok w \<Longrightarrow> registry_ok (fst (stop_project pid w))"
  by (cases "map_of (projects w) pid") (simp_all add: stop_project_def Let_def ok_closeAll)

lemma setupLoop_frame:
  "terminals (fst (setupLoop pj wfail project stepIndex tm steps i rs w)) = terminals w \<and>
   running (fst (setupLoop pj wfail project stepIndex tm steps i rs w)) = running w \<and>
   nextId (fst (setupLoop pj wfail project stepIndex tm steps i rs w)) = nextId w \<and>
   projects (fst (setupLoop pj wfail project stepIndex tm steps i rs w)) = projects w"
proof (induction steps arbitrary: i rs w)
  case Nil
  then show ?case by simp
next
  case (Cons stepOpt rest)
  show ?case
  proof (cases stepOpt)
    case None
    then show ?thesis by simp
  next
    case (Some step')
    then show ?thesis
      by (simp add: Let_def Cons.IH sleep_def ptyWrite_def split: option.split)
  qed
qed

lemma ok_frame:
  "registry_ok w \<Longrightarrow> terminals w' = terminals w \<Longrightarrow> running w' = running w \<Longrightarrow>
   nextId w' = nextId w \<Longrightarrow> registry_ok w'"
  by (simp add: registry_ok_def)

lemma ok_setup_project: "registry_ok w \<Longrightarrow> registry_ok (fst (setup_project pj wfail pid k w))"
proof (cases "map_of (projects w) pid")
  case None
  assume "registry_ok w"
  with None show ?thesis by (simp add: setup_project_def)
next
  case (Some p)
  assume ok: "registry_ok w"
  let ?w1 = "snd (createTerminal (p_name p @ ''-setup'') (rootPath p) w)"
  let ?t = "fst (createTerminal (p_name p @ ''-setup'') (rootPath p) w)"
  let ?steps = "case k of Some k' \<Rightarrow> [jsIndex (setupSteps p) k'] | None \<Rightarrow> map Some (setupSteps p)"
  have "fst (setup_project pj wfail pid k w)
          = fst (setupLoop pj wfail p k (t_id ?t) ?steps 0 [] ?w1)"
    using Some by (simp add: setup_project_def Let_def split: prod.split sum.split)
  moreover have "registry_ok ?w1"
    using ok by (rule ok_createTerminal)
  ultimately show ?thesis
    using setupLoop_frame [of pj wfail p k "t_id ?t" ?steps 0 "[]" ?w1]
    by (auto intro: ok_frame)
qed

lemma ok_update_same:
  assumes "registry_ok w" "map_of (terminals w) i = Some t" "t_id t' = t_id t"
  shows "registry_ok (w\<lparr>terminals := AList.update i t' (terminals w)\<rparr>)"
proof -
  have mem: "(i, t) \<in> set (terminals w)"
    using assms(2) by (rule map_of_SomeD)
  then have "i \<in> fst ` set (terminals w)"
    by force
  then have keys: "fst ` set (AList.update i t' (terminals w)) = fst ` set (terminals w)"
    by (auto simp add: dom_update)
  have "t_id t = i" "i < nextId w"
    using assms(1) mem by (auto simp add: registry_ok_def list_all_iff)
  then show ?thesis
    using assms(1,3) keys set_update_subset [of i t' "terminals w"]
    by (auto simp add: registry_ok_def distinct_update list_all_iff)
qed

lemma ok_processData: "registry_ok w \<Longrightarrow> registry_ok (processData i d w)"
  by (auto simp add: processData_def onData_def Let_def split: option.split intro!: ok_update_same)

lemma ok_executeCommand:
  "registry_ok w \<Longrightarrow> registry_ok (fst (executeCommand i c wait tmo pat w))"
  by (auto simp add: executeCommand_def Let_def ok_ptyWrite split: option.split intro!: ok_update_same)

lemma ok_loadProjectConfig: "registry_ok w \<Longrightarrow> registry_ok (fst (loadProjectConfig c w))"
  by (simp add: loadProjectConfig_def registry_ok_def)

lemma ok_step: "registry_ok w \<Longrightarrow> registry_ok (step pj wfail w e)"
  by (cases e)
    (simp_all add: ok_loadProjectConfig ok_createTerminal ok_executeCommand ok_close_terminal
      ok_setup_project ok_stop_project ok_processData ok_processExit)

lemma ok_run: "registry_ok w \<Longrightarrow> registry_ok (run pj wfail evs w)"
  unfolding run_def by (induction evs arbitrary: w) (simp_all add: ok_step)

lemma ok_initWorld: "registry_ok initWorld"
  by (simp add: registry_ok_def initWorld_def)

lemma run_append: "run pj wfail (xs @ ys) w = run pj wfail ys (run pj wfail xs w)"
  by (simp add: run_def)

lemma run_Cons: "run pj wfail (e # evs) w = run pj wfail evs (step pj wfail w e)"
  by (simp add: run_def)

lemma closeOne_terminals: "terminals (closeOne w t) = AList.delete (t_id t) (terminals w)"
  by (simp add: closeOne_def ptyKill_def Let_def)

lemma closeOne_running: "running (closeOne w t) = running w"
  by (simp add: closeOne_def ptyKill_def Let_def)

lemma closeOne_trace: "trace (closeOne w t) = trace w @ [PtyKill (t_id t)]"
  by (simp add: closeOne_def ptyKill_def Let_def)

lemma closeOne_rest:
  "nextId (closeOne w t) = nextId w \<and> projects (closeOne w t) = projects w \<and>
   clock (closeOne w t) = clock w"
  by (simp add: closeOne_def ptyKill_def Let_def)

lemma closeAll_effect:
  "terminals (foldl closeOne w ts) = filter (\<lambda>(i, t). i \<notin> t_id ` set ts) (terminals w) \<and>
   running (foldl closeOne w ts) = running w \<and>
   trace (foldl closeOne w ts) = trace w @ map (\<lambda>t. PtyKill (t_id t)) ts \<and>
   nextId (foldl closeOne w ts) = nextId w \<and>
   projects (foldl closeOne w ts) = projects w \<and>
   clock (foldl closeOne w ts) = clock w"
proof (induction ts arbitrary: w)
  case Nil
  then show ?case by simp
next
  case (Cons t ts)
  have "filter (\<lambda>(i, t'). i \<notin> t_id ` set ts) (AList.delete (t_id t) (terminals w))
          = filter (\<lambda>(i, t'). i \<notin> t_id ` set (t # ts)) (terminals w)"
    by (auto simp add: AList.delete_eq intro: filter_cong)
  then show ?case
    using Cons.IH [of "closeOne w t"]
    by (auto simp add: closeOne_terminals closeOne_running closeOne_trace closeOne_rest)
qed

lemma keys_update_same:
  assumes "map_of al i = Some t"
  shows "fst ` set (AList.update i t' al) = fst ` set al"
proof -
  have "(i, t) \<in> set al"
    using assms by (rule map_of_SomeD)
  then have "i \<in> fst ` set al"
    by force
  then show ?thesis
    by (auto simp add: dom_update)
qed

lemma step_ids:
  "nextId w \<le> nextId (step pj wfail w e) \<and>
   fst ` set (terminals (step pj wfail w e))
     \<subseteq> fst ` set (terminals w) \<union> {nextId w ..< nextId (step pj wfail w e)}"
proof (cases e)
  case (LoadProject c)
  then show ?thesis by (simp add: loadProjectConfig_def)
next
  case (CreateTerminal nm dir)
  then show ?thesis by (auto simp add: createTerminal_def Let_def dom_update)
next
  case (ExecuteCommand i c wait)
  then show ?thesis
    by (simp add: executeCommand_def Let_def ptyWrite_def keys_update_same split: option.split)
next
  case (CloseTerminal i)
  then show ?thesis
    by (auto simp add: close_terminal_def Let_def ptyKill_def dom_delete split: option.split)
next
  case (SetupProject pid k)
  show ?thesis
  proof (cases "map_of (projects w) pid")
    case None
    with SetupProject show ?thesis by (simp add: setup_project_def)
  next
    case (Some p)
    let ?c = "createTerminal (p_name p @ ''-setup'') (rootPath p) w"
    let ?steps = "case k of Some k' \<Rightarrow> [jsIndex (setupSteps p) k'] | None \<Rightarrow> map Some (setupSteps p)"
    have "step pj wfail w e = fst (setupLoop pj wfail p k (t_id (fst ?c)) ?steps 0 [] (snd ?c))"
      using Some SetupProject by (simp add: setup_project_def Let_def split: prod.split sum.split)
    then show ?thesis
      using setupLoop_frame [of pj wfail p k "t_id (fst ?c)" ?steps 0 "[]" "snd ?c"]
      by (auto simp add: createTerminal_def Let_def dom_update)
  qed
next
  case (StopProject pid)
  then show ?thesis
    using closeAll_effect
    by (cases "map_of (projects w) pid") (auto simp add: stop_project_def Let_def)
next
  case (ProcessData i d)
  then show ?thesis by (simp add: processData_def keys_update_same split: option.split)
next
  case (ProcessExited i)
  then show ?thesis by (auto simp add: processExit_def dom_delete)
qed

lemma step_gone:
  assumes "i < nextId w" "i \<notin> fst ` set (terminals w)"
  shows "i < nextId (step pj wfail w e) \<and> i \<notin> fst ` set (terminals (step pj wfail w e))"
  using assms step_ids [of w pj wfail e] by auto

lemma run_gone:
  "i < nextId w \<Longrightarrow> i \<notin> fst ` set (terminals w) \<Longrightarrow>
   i < nextId (run pj wfail evs w) \<and> i \<notin> fst ` set (terminals (run pj wfail evs w))"
proof (induction evs arbitrary: w)
  case Nil
  then show ?case by (simp add: run_def)
next
  case (Cons e evs)
  from step_gone [OF Cons.prems, of pj wfail e] Cons.IH [of "step pj wfail w e"]
  show ?case by (simp add: run_Cons)
qed

lemma run_nextId_mono: "nextId w \<le> nextId (run pj wfail evs w)"
proof (induction evs arbitrary: w)
  case Nil
  then show ?case by (simp add: run_def)
next
  case (Cons e evs)
  from step_ids [of w pj wfail e] Cons.IH [of "step pj wfail w e"]
  show ?case by (simp add: run_Cons)
qed

lemma close_terminal_gone: "i \<notin> fst ` set (terminals (fst (close_terminal i w)))"
proof (cases "map_of (terminals w) i")
  case None
  then have "i \<notin> fst ` set (terminals w)"
    by (simp add: map_of_eq_None_iff)
  with None show ?thesis
    by (simp add: close_terminal_def)
next
  case (Some t)
  then show ?thesis
    by (simp add: close_terminal_def Let_def ptyKill_def delete_notin_dom)
qed

lemma processExit_gone:
  assumes "registry_ok w"
  shows "i \<notin> fst ` set (terminals (processExit i w))"
proof (cases "i \<in> running w")
  case True
  then show ?thesis
    by (simp add: processExit_def delete_notin_dom)
next
  case False
  with assms have "i \<notin> fst ` set (terminals w)"
    by (auto simp add: registry_ok_def)
  with False show ?thesis
    by (simp add: processExit_def)
qed

lemma ok_resolvable:
  "registry_ok w \<Longrightarrow> map_of (terminals w) i \<noteq> None \<Longrightarrow> i \<in> running w"
  by (auto simp add: registry_ok_def map_of_eq_None_iff)

text \<open>
  Claim C7, as amended. In every state the server can reach, an identifier that resolves
  in the registry belongs to a process that is running (spawned and not exited). A terminal
  that has just been created resolves to its session; once it is closed through
  \<^verbatim>\<open>close_terminal\<close>, or once its process has exited by itself, its identifier resolves no
  more, whatever happens afterwards.
\<close>

theorem registry_tracks_live_processes:
  "(map_of (terminals (run pj wfail evs initWorld)) i \<noteq> None
      \<longrightarrow> i \<in> running (run pj wfail evs initWorld))
   \<and> map_of (terminals (run pj wfail (evs1 @ [CreateTerminal nm dir]) initWorld))
        (nextId (run pj wfail evs1 initWorld))
      = Some (newSession (nextId (run pj wfail evs1 initWorld)) nm dir
                (clock (run pj wfail evs1 initWorld)))
   \<and> map_of (terminals (run pj wfail
        (evs1 @ CreateTerminal nm dir # evs2 @
           CloseTerminal (nextId (run pj wfail evs1 initWorld)) # evs3) initWorld))
        (nextId (run pj wfail evs1 initWorld)) = None
   \<and> map_of (terminals (run pj wfail
        (evs1 @ CreateTerminal nm dir # evs2 @
           ProcessExited (nextId (run pj wfail evs1 initWorld)) # evs3) initWorld))
        (nextId (run pj wfail evs1 initWorld)) = None"
proof -
  let ?w1 = "run pj wfail evs1 initWorld"
  let ?i = "nextId ?w1"
  let ?w2 = "run pj wfail evs2 (step pj wfail ?w1 (CreateTerminal nm dir))"
  have ok: "\<And>es. registry_ok (run pj wfail es initWorld)"
    by (rule ok_run [OF ok_initWorld])
  have ok2: "registry_ok ?w2"
    by (intro ok_run ok_step ok)
  have "?i < nextId (step pj wfail ?w1 (CreateTerminal nm dir))"
    by (simp add: createTerminal_def Let_def)
  also have "\<dots> \<le> nextId ?w2"
    by (rule run_nextId_mono)
  finally have lt: "?i < nextId ?w2" .
  have gone:
    "\<And>e. ?i \<notin> fst ` set (terminals (step pj wfail ?w2 e)) \<Longrightarrow>
       map_of (terminals (run pj wfail evs3 (step pj wfail ?w2 e))) ?i = None"
  proof -
    fix e
    assume nr: "?i \<notin> fst ` set (terminals (step pj wfail ?w2 e))"
    have "?i < nextId (step pj wfail ?w2 e)"
      using lt step_ids [of ?w2 pj wfail e] by simp
    from run_gone [OF this nr, of pj wfail evs3]
    have "?i \<notin> fst ` set (terminals (run pj wfail evs3 (step pj wfail ?w2 e)))"
      by simp
    then show "map_of (terminals (run pj wfail evs3 (step pj wfail ?w2 e))) ?i = None"
      by (simp add: map_of_eq_None_iff)
  qed
  have c1: "map_of (terminals (run pj wfail evs3 (step pj wfail ?w2 (CloseTerminal ?i)))) ?i = None"
    using close_terminal_gone [of ?i ?w2] by (intro gone) simp
  have c2: "map_of (terminals (run pj wfail evs3 (step pj wfail ?w2 (ProcessExited ?i)))) ?i = None"
    using processExit_gone [OF ok2, of ?i] by (intro gone) simp
  have c0: "map_of (terminals (run pj wfail (evs1 @ [CreateTerminal nm dir]) initWorld)) ?i
              = Some (newSession ?i nm dir (clock ?w1))"
    by (simp add: run_append run_Cons run_def createTerminal_def Let_def update_conv')
  have inv: "map_of (terminals (run pj wfail evs initWorld)) i \<noteq> None
               \<longrightarrow> i \<in> running (run pj wfail evs initWorld)"
    using ok_resolvable [OF ok] by blast
  show ?thesis
    using inv c0 c1 c2 by (simp add: run_append run_Cons)
qed

theorem registry_tracks_live_processes_witness:
  "map_of (terminals (run demoJoin (\<lambda>line. None) [CreateTerminal ''a'' ''/tmp''] initWorld)) 0 \<noteq> None
   \<and> 0 \<in> running (run demoJoin (\<lambda>line. None) [CreateTerminal ''a'' ''/tmp''] initWorld)
   \<and> map_of (terminals (run demoJoin (\<lambda>line. None)
        [CreateTerminal ''a'' ''/tmp'', CreateTerminal ''b'' ''/tmp'', CloseTerminal 0,
         CreateTerminal ''c'' ''/tmp''] initWorld)) 0 = None
   \<and> map_of (terminals (run demoJoin (\<lambda>line. None)
        [CreateTerminal ''a'' ''/tmp'', ProcessData 0 ''x'', ProcessExited 0,
         CreateTerminal ''c'' ''/tmp''] initWorld)) 0 = None"
proof -
  have n0: "nextId (run demoJoin (\<lambda>line. None) [] initWorld) = 0"
    by (simp add: run_def initWorld_def)
  have r: "map_of (terminals (run demoJoin (\<lambda>line. None) [CreateTerminal ''a'' ''/tmp''] initWorld)) 0
             \<noteq> None"
    by (simp add: run_def initWorld_def createTerminal_def Let_def)
  note t = registry_tracks_live_processes
  from t [of demoJoin "\<lambda>line. None" "[CreateTerminal ''a'' ''/tmp'']" 0] r
  have a: "0 \<in> running (run demoJoin (\<lambda>line. None) [CreateTerminal ''a'' ''/tmp''] initWorld)"
    by blast
  from t [of demoJoin "\<lambda>line. None" "[]" 0 "[]" "''a''" "''/tmp''"
            "[CreateTerminal ''b'' ''/tmp'']" "[CreateTerminal ''c'' ''/tmp'']"]
  have b: "map_of (terminals (run demoJoin (\<lambda>line. None)
        [CreateTerminal ''a'' ''/tmp'', CreateTerminal ''b'' ''/tmp'', CloseTerminal 0,
         CreateTerminal ''c'' ''/tmp''] initWorld)) 0 = None"
    by (simp add: n0)
  from t [of demoJoin "\<lambda>line. None" "[]" 0 "[]" "''a''" "''/tmp''"
            "[ProcessData 0 ''x'']" "[CreateTerminal ''c'' ''/tmp'']"]
  have c: "map_of (terminals (run demoJoin (\<lambda>line. None)
        [CreateTerminal ''a'' ''/tmp'', ProcessData 0 ''x'', ProcessExited 0,
         CreateTerminal ''c'' ''/tmp''] initWorld)) 0 = None"
    by (simp add: n0)
  from r a b c show ?thesis by simp
qed

text \<open>
  Claim C7 as it was stated fails in one direction. After a terminal is created and then
  closed through \<^verbatim>\<open>close_terminal\<close>, its identifier no longer resolves although its process is
  still running: \<^verbatim>\<open>kill()\<close> has only signalled it, and its exit has not been delivered.
\<close>

theorem closed_terminal_still_running_counterexample:
  "map_of (terminals (run demoJoin (\<lambda>line. None)
      [CreateTerminal ''a'' ''/tmp'', CloseTerminal 0] initWorld)) 0 = None
   \<and> 0 \<in> running (run demoJoin (\<lambda>line. None)
      [CreateTerminal ''a'' ''/tmp'', CloseTerminal 0] initWorld)
   \<and> \<not> ((map_of (terminals (run demoJoin (\<lambda>line. None)
            [CreateTerminal ''a'' ''/tmp'', CloseTerminal 0] initWorld)) 0 \<noteq> None)
        = (0 \<in> running (run demoJoin (\<lambda>line. None)
            [CreateTerminal ''a'' ''/tmp'', CloseTerminal 0] initWorld)))"
  by (simp add: run_def initWorld_def createTerminal_def close_terminal_def ptyKill_def Let_def
      newSession_def)

lemma demoWorld_eval:
  "demoWorld =
     \<lparr>terminals = [(0, newSession 0 ''app-api'' ''/srv/app/api'' 0),
                   (1, newSession 1 ''web-ui'' ''/srv/web'' 0)],
      projects = [(''app'', demoProject)],
      nextId = 2, running = {0, 1},
      trace = [Spawn 0 ''app-api'' ''/srv/app/api'', Spawn 1 ''web-ui'' ''/srv/web''],
      clock = 0\<rparr>"
  by (simp add: demoWorld_def run_def initWorld_def loadProjectConfig_def createTerminal_def
      Let_def demoProject_def insert_commute)

section \<open>\<^verbatim>\<open>stop_project\<close>\<close>

text \<open>
  Claim C6. For a loaded project, \<^verbatim>\<open>stop_project\<close> kills, in registry order, the processes
  of exactly the registered sessions whose name starts with the project's name followed by
  a hyphen, and removes exactly those from the registry; every other entry stays in place
  as it was.
\<close>

theorem stop_project_closes_prefix_sessions:
  assumes "registry_ok w" and "map_of (projects w) projectId = Some project"
  shows "terminals (fst (stop_project projectId w))
           = filter (\<lambda>e. \<not> ownedBy project e) (terminals w)
       \<and> running (fst (stop_project projectId w)) = running w
       \<and> trace (fst (stop_project projectId w))
           = trace w @ map (\<lambda>e. PtyKill (fst e)) (filter (ownedBy project) (terminals w))
       \<and> snd (stop_project projectId w)
           = Inr (StoppedReply (p_name project) (length (filter (ownedBy project) (terminals w))))"
proof -
  let ?own = "filter (ownedBy project) (terminals w)"
  let ?ts = "map snd ?own"
  have own: "(\<lambda>(i, terminal). startsWith (t_name terminal) (p_name project @ ''-'')) = ownedBy project"
    by (auto simp add: ownedBy_def fun_eq_iff)
  have sp: "stop_project projectId w
              = (foldl closeOne w ?ts, Inr (StoppedReply (p_name project) (length ?ts)))"
    using assms(2) by (simp add: stop_project_def Let_def own)
  have ids: "\<And>i t. (i, t) \<in> set (terminals w) \<Longrightarrow> t_id t = i"
    using assms(1) by (auto simp add: registry_ok_def list_all_iff)
  have dist: "distinct (map fst (terminals w))"
    using assms(1) by (simp add: registry_ok_def)
  have key: "\<And>i t. (i, t) \<in> set (terminals w) \<Longrightarrow> (i \<in> t_id ` set ?ts) = ownedBy project (i, t)"
  proof
    fix i t
    assume mem: "(i, t) \<in> set (terminals w)" and "i \<in> t_id ` set ?ts"
    then obtain j t' where o: "(j, t') \<in> set (terminals w)" "ownedBy project (j, t')" "i = t_id t'"
      by auto
    then have "j = i" using ids by simp
    with o mem dist have "t' = t"
      by (auto dest: eq_key_imp_eq_value)
    with o \<open>j = i\<close> show "ownedBy project (i, t)" by simp
  next
    fix i t
    assume mem: "(i, t) \<in> set (terminals w)" and own: "ownedBy project (i, t)"
    then have "t \<in> set ?ts" by force
    moreover have "t_id t = i" using mem by (rule ids)
    ultimately show "i \<in> t_id ` set ?ts" by force
  qed
  have f: "filter (\<lambda>(i, t). i \<notin> t_id ` set ?ts) (terminals w)
             = filter (\<lambda>e. \<not> ownedBy project e) (terminals w)"
  proof (rule filter_cong [OF refl])
    fix e
    assume mem: "e \<in> set (terminals w)"
    obtain i t where e: "e = (i, t)"
      by (cases e)
    with mem have "(i, t) \<in> set (terminals w)"
      by simp
    from key [OF this]
    show "(case e of (i, t) \<Rightarrow> i \<notin> t_id ` set ?ts) = (\<not> ownedBy project e)"
      by (simp only: e prod.case)
  qed
  have r: "t_id ` set ?ts = fst ` set ?own"
    using ids by force
  have m: "map (\<lambda>t. PtyKill (t_id t)) ?ts = map (\<lambda>e. PtyKill (fst e)) ?own"
    using ids by (auto simp add: comp_def)
  show ?thesis
    using closeAll_effect [of w ?ts] f r m by (simp add: sp)
qed

theorem stop_project_closes_prefix_sessions_witness:
  "terminals (fst (stop_project ''app'' demoWorld)) = [(1, newSession 1 ''web-ui'' ''/srv/web'' 0)]
   \<and> running (fst (stop_project ''app'' demoWorld)) = {0, 1}
   \<and> trace (fst (stop_project ''app'' demoWorld))
       = [Spawn 0 ''app-api'' ''/srv/app/api'', Spawn 1 ''web-ui'' ''/srv/web'', PtyKill 0]
   \<and> snd (stop_project ''app'' demoWorld) = Inr (StoppedReply ''app'' 1)"
proof -
  have ok: "registry_ok demoWorld"
    unfolding demoWorld_def by (rule ok_run [OF ok_initWorld])
  have pr: "map_of (projects demoWorld) ''app'' = Some demoProject"
    by (simp add: demoWorld_eval)
  have nm: "p_name demoProject = ''app''"
    by (simp add: demoProject_def)
  from stop_project_closes_prefix_sessions [OF ok pr]
  show ?thesis
    by (simp add: demoWorld_eval ownedBy_def startsWith_def newSession_def nm)
qed

section \<open>\<^verbatim>\<open>setup_project\<close> with a step index past the end\<close>

text \<open>
  Claim C10. For a loaded project and a step index at or past the number of setup steps,
  \<^verbatim>\<open>setup_project\<close> throws the type error of reading a property of \<^verbatim>\<open>undefined\<close>, after it
  has created and registered the setup session: the session stays in the registry, its
  process was spawned, and nothing was written to it.
\<close>

theorem setup_missing_step_throws_after_create:
  assumes "map_of (projects w) projectId = Some project"
    and "int (length (setupSteps project)) \<le> k"
  shows "setup_project pj wfail projectId (Some k) w =
           (snd (createTerminal (p_name project @ ''-setup'') (rootPath project) w),
            Inl (TypeError ''Cannot read properties of undefined (reading name)''))
       \<and> map_of (terminals (fst (setup_project pj wfail projectId (Some k) w))) (nextId w)
           = Some (newSession (nextId w) (p_name project @ ''-setup'') (rootPath project) (clock w))
       \<and> trace (fst (setup_project pj wfail projectId (Some k) w))
           = trace w @ [Spawn (nextId w) (p_name project @ ''-setup'') (rootPath project)]"
proof -
  have idx: "jsIndex (setupSteps project) k = None"
    using assms(2) by (simp add: jsIndex_def)
  have sp: "setup_project pj wfail projectId (Some k) w =
           (snd (createTerminal (p_name project @ ''-setup'') (rootPath project) w),
            Inl (TypeError ''Cannot read properties of undefined (reading name)''))"
    using assms(1) idx by (simp add: setup_project_def Let_def)
  show ?thesis
    unfolding sp by (simp add: createTerminal_def Let_def update_conv')
qed

theorem setup_missing_step_throws_after_create_witness:
  "setup_project demoJoin (\<lambda>line. None) ''app'' (Some 1) demoWorld =
     (snd (createTerminal ''app-setup'' ''/srv/app'' demoWorld),
      Inl (TypeError ''Cannot read properties of undefined (reading name)''))
   \<and> map_of (terminals (fst (setup_project demoJoin (\<lambda>line. None) ''app'' (Some 1) demoWorld))) 2
       = Some (newSession 2 ''app-setup'' ''/srv/app'' 0)
   \<and> trace (fst (setup_project demoJoin (\<lambda>line. None) ''app'' (Some 1) demoWorld))
       = [Spawn 0 ''app-api'' ''/srv/app/api'', Spawn 1 ''web-ui'' ''/srv/web'',
          Spawn 2 ''app-setup'' ''/srv/app'']"
proof -
  have pr: "map_of (projects demoWorld) ''app'' = Some demoProject"
    by (simp add: demoWorld_eval)
  have len: "int (length (setupSteps demoProject)) \<le> 1"
    by (simp add: demoProject_def)
  have nm: "p_name demoProject = ''app''" "rootPath demoProject = ''/srv/app''"
    by (simp_all add: demoProject_def)
  have w: "nextId demoWorld = 2" "clock demoWorld = 0"
    "trace demoWorld = [Spawn 0 ''app-api'' ''/srv/app/api'', Spawn 1 ''web-ui'' ''/srv/web'']"
    by (simp_all add: demoWorld_eval)
  show ?thesis
    by (rule setup_missing_step_throws_after_create
          [OF pr len, of demoJoin "\<lambda>line. None", unfolded nm w append.simps])
qed

section \<open>\<^verbatim>\<open>start_project\<close>: order and uniqueness of starts\<close>

lemma foldl_ptyWrite:
  "foldl (\<lambda>w p. ptyWrite i (g p) w) w1 vars
     = w1\<lparr>trace := trace w1 @ map (\<lambda>p. PtyWrite i (g p)) vars\<rparr>"
  by (induction vars arbitrary: w1) (auto simp add: ptyWrite_def)

lemma env_writes:
  "(case envVars service of
      None \<Rightarrow> w1
    | Some vars \<Rightarrow>
        foldl (\<lambda>w (key, val). ptyWrite i (''export '' @ key @ ''='' @ DQ @ val @ DQ @ CR) w) w1 vars)
     = w1\<lparr>trace := trace w1 @ map (PtyWrite i) (envLines service)\<rparr>"
proof (cases "envVars service")
  case None
  then show ?thesis by (simp add: envLines_def)
next
  case (Some vars)
  have "foldl (\<lambda>w (key, val). ptyWrite i (''export '' @ key @ ''='' @ DQ @ val @ DQ @ CR) w) w1 vars
          = foldl (\<lambda>w p. ptyWrite i (''export '' @ fst p @ ''='' @ DQ @ snd p @ DQ @ CR) w) w1 vars"
    by (simp only: split_def)
  also have "\<dots> = w1\<lparr>trace := trace w1 @
      map (\<lambda>p. PtyWrite i (''export '' @ fst p @ ''='' @ DQ @ snd p @ DQ @ CR)) vars\<rparr>"
    by (rule foldl_ptyWrite)
  finally show ?thesis
    using Some by (simp add: envLines_def split_def comp_def)
qed

lemma launch_started:
  "started (launch pj project service cmd st) = insert (s_name service) (started st)"
  by (simp add: launch_def Let_def)

lemma launch_trace:
  "startCommand service = Some cmd \<Longrightarrow>
   trace (sworld (launch pj project service cmd st))
     = trace (sworld st) @
       Spawn (nextId (sworld st)) (sessionName project service) (pj (rootPath project) (s_path service)) #
       map (PtyWrite (nextId (sworld st))) (envLines service) @
       [PtyWrite (nextId (sworld st)) (startLine service)]"
  by (simp add: launch_def Let_def env_writes)
    (simp add: createTerminal_def newSession_def ptyWrite_def sleep_def Let_def
      sessionName_def startLine_def)

lemma find_name:
  "find (\<lambda>s. s_name s = dep) xs = Some d \<Longrightarrow> d \<in> set xs \<and> s_name d = dep"
  by (auto simp add: find_Some_iff)

lemma set_map_filter: "set (List.map_filter g xs) = {y. \<exists>x \<in> set xs. g x = Some y}"
  by (induction xs) (auto split: option.splits)

lemma directDeps_iff:
  "d \<in> set (directDeps project s)
     = (\<exists>deps dep. dependsOn s = Some deps \<and> dep \<in> set deps \<and>
          find (\<lambda>x. s_name x = dep) (services project) = Some d)"
  by (cases "dependsOn s") (auto simp add: directDeps_def set_map_filter)

lemma depEdges_iff:
  "((d, s) \<in> depEdges project) = (s \<in> set (services project) \<and> d \<in> set (directDeps project s))"
  by (auto simp add: depEdges_def)

lemma directDeps_in_services: "d \<in> set (directDeps project s) \<Longrightarrow> d \<in> set (services project)"
  by (auto simp add: directDeps_iff dest: find_name)

lemma directDeps_depNames:
  "d \<in> set (directDeps project s)
     = (\<exists>dep \<in> set (depNames s). find (\<lambda>x. s_name x = dep) (services project) = Some d)"
  by (cases "dependsOn s") (auto simp add: directDeps_iff depNames_def)

lemma startService_Suc:
  "startService (Suc n) pj project s st =
     (if s_name s \<in> started st then Some st
      else (case startDeps (startService n pj project) project (depNames s) st of
              None \<Rightarrow> None
            | Some st1 \<Rightarrow>
                Some (if hasStart s then launch pj project s (the (startCommand s)) st1 else st1)))"
  by (cases "dependsOn s"; cases "startCommand s")
    (auto simp add: depNames_def hasStart_def split: option.split)

declare startService.simps(2) [simp del]

lemma startService_cases:
  assumes "startService n pj project s st = Some st'"
  obtains (skip) "s_name s \<in> started st" "st' = st"
  | (run) m st1 where "n = Suc m" "s_name s \<notin> started st"
      "startDeps (startService m pj project) project (depNames s) st = Some st1"
      "st' = (if hasStart s then launch pj project s (the (startCommand s)) st1 else st1)"
proof (cases n)
  case 0
  with assms show ?thesis by simp
next
  case (Suc m)
  show ?thesis
  proof (cases "s_name s \<in> started st")
    case True
    with assms Suc have "st' = st" by (simp add: startService_Suc)
    with True show ?thesis by (rule skip)
  next
    case False
    show ?thesis
    proof (cases "startDeps (startService m pj project) project (depNames s) st")
      case None
      with assms Suc False show ?thesis by (simp add: startService_Suc)
    next
      case (Some st1)
      with assms Suc False
      have "st' = (if hasStart s then launch pj project s (the (startCommand s)) st1 else st1)"
        by (simp add: startService_Suc split: if_splits)
      with Suc False Some show ?thesis by (rule run)
    qed
  qed
qed

lemma startDeps_Cons_unknown:
  "find (\<lambda>s. s_name s = dep) (services project) = None \<Longrightarrow>
   startDeps again project (dep # deps) st = startDeps again project deps st"
  by simp

lemma startDeps_Cons_started:
  "find (\<lambda>s. s_name s = dep) (services project) = Some d \<Longrightarrow> dep \<in> started st \<Longrightarrow>
   startDeps again project (dep # deps) st = startDeps again project deps st"
  by simp

lemma startDeps_Cons_run:
  "find (\<lambda>s. s_name s = dep) (services project) = Some d \<Longrightarrow> dep \<notin> started st \<Longrightarrow>
   startDeps again project (dep # deps) st =
     (case again d st of None \<Rightarrow> None | Some st2 \<Rightarrow> startDeps again project deps st2)"
  by simp

declare startDeps.simps(2) [simp del]

lemma startDeps_inv:
  assumes "startDeps again project deps st = Some st'" and "Inv st"
    and "\<And>dep d a b. dep \<in> set deps \<Longrightarrow> find (\<lambda>s. s_name s = dep) (services project) = Some d \<Longrightarrow>
           dep \<notin> started a \<Longrightarrow> Inv a \<Longrightarrow> again d a = Some b \<Longrightarrow> Inv b"
  shows "Inv st'"
  using assms
proof (induction deps arbitrary: st)
  case Nil
  then show ?case by simp
next
  case (Cons dep deps)
  have step: "Inv b" if "dep' \<in> set deps"
      "find (\<lambda>s. s_name s = dep') (services project) = Some d"
      "dep' \<notin> started a" "Inv a" "again d a = Some b" for dep' d a b
    using Cons.prems(3) [of dep' d a b] that by simp
  show ?case
  proof (cases "find (\<lambda>s. s_name s = dep) (services project)")
    case None
    from Cons.prems(1) have "startDeps again project deps st = Some st'"
      by (simp only: startDeps_Cons_unknown [OF None])
    from Cons.IH [OF this Cons.prems(2) step] show ?thesis .
  next
    case (Some d)
    show ?thesis
    proof (cases "dep \<in> started st")
      case True
      from Cons.prems(1) have "startDeps again project deps st = Some st'"
        by (simp only: startDeps_Cons_started [OF Some True])
      from Cons.IH [OF this Cons.prems(2) step] show ?thesis .
    next
      case False
      from Cons.prems(1)
      have c: "(case again d st of None \<Rightarrow> None | Some st2 \<Rightarrow> startDeps again project deps st2)
                 = Some st'"
        by (simp only: startDeps_Cons_run [OF Some False])
      then obtain st2 where
        a: "again d st = Some st2" and r: "startDeps again project deps st2 = Some st'"
        by (cases "again d st") simp_all
      have "Inv st2"
        using Cons.prems(3) [of dep d st st2] Some False Cons.prems(2) a by simp
      from Cons.IH [OF r this step] show ?thesis .
    qed
  qed
qed

lemma launch_prefix:
  "prefix (trace (sworld st)) (trace (sworld (launch pj project s cmd st)))"
  by (simp add: launch_def Let_def env_writes)
    (simp add: createTerminal_def ptyWrite_def sleep_def Let_def)

lemma startService_mono:
  "startService n pj project s st = Some st' \<Longrightarrow>
   started st \<subseteq> started st' \<and> prefix (trace (sworld st)) (trace (sworld st'))"
proof (induction n arbitrary: s st st')
  case 0
  then show ?case by simp
next
  case (Suc n)
  from Suc.prems show ?case
  proof (cases rule: startService_cases)
    case skip
    then show ?thesis by simp
  next
    case (run m st1)
    then have m: "m = n" by simp
    have mid: "started st \<subseteq> started st1 \<and> prefix (trace (sworld st)) (trace (sworld st1))"
    proof (rule startDeps_inv [OF run(3)])
      show "started st \<subseteq> started st \<and> prefix (trace (sworld st)) (trace (sworld st))"
        by simp
    next
      fix dep d a b
      assume a: "started st \<subseteq> started a \<and> prefix (trace (sworld st)) (trace (sworld a))"
        and "startService m pj project d a = Some b"
      then have "started a \<subseteq> started b \<and> prefix (trace (sworld a)) (trace (sworld b))"
        using Suc.IH [of d a b] m by simp
      with a show "started st \<subseteq> started b \<and> prefix (trace (sworld st)) (trace (sworld b))"
        using prefix_order.trans by blast
    qed
    have "started st1 \<subseteq> started st' \<and> prefix (trace (sworld st1)) (trace (sworld st'))"
    proof (cases "hasStart s")
      case True
      with run(4) show ?thesis
        using launch_prefix [of st1 pj project s "the (startCommand s)"]
        by (simp add: launch_started subset_insertI)
    next
      case False
      with run(4) show ?thesis by simp
    qed
    with mid show ?thesis
      using prefix_order.trans by blast
  qed
qed

lemma startService_post:
  assumes "startService n pj project s st = Some st'" and "hasStart s"
  shows "s_name s \<in> started st'"
  using assms(1)
proof (cases rule: startService_cases)
  case skip
  then show ?thesis by simp
next
  case (run m st1)
  with assms(2) show ?thesis by (simp add: launch_started)
qed

lemma startDeps_post_gen:
  assumes "startDeps again project deps st = Some st'"
    and mono: "\<And>d a b. again d a = Some b \<Longrightarrow> started a \<subseteq> started b"
    and post: "\<And>d a b. again d a = Some b \<Longrightarrow> hasStart d \<Longrightarrow> s_name d \<in> started b"
  shows "started st \<subseteq> started st' \<and>
         (\<forall>dep \<in> set deps. \<forall>d. find (\<lambda>s. s_name s = dep) (services project) = Some d \<longrightarrow>
            hasStart d \<longrightarrow> dep \<in> started st')"
  using assms(1)
proof (induction deps arbitrary: st)
  case Nil
  from Nil have "Some st = Some st'"
    by (simp only: startDeps.simps(1))
  then have "st' = st"
    by (simp only: option.inject)
  then show ?case
    by (simp only: subset_refl list.set ball_empty simp_thms)
next
  case (Cons dep deps)
  let ?P = "\<lambda>dep'. \<forall>d. find (\<lambda>s. s_name s = dep') (services project) = Some d \<longrightarrow>
                hasStart d \<longrightarrow> dep' \<in> started st'"
  have tail: "started st \<subseteq> started st' \<and> (\<forall>dep' \<in> set (dep # deps). ?P dep')"
    if r: "startDeps again project deps st2 = Some st'"
      and m: "started st \<subseteq> started st2"
      and h: "\<And>d. find (\<lambda>s. s_name s = dep) (services project) = Some d \<Longrightarrow> hasStart d \<Longrightarrow>
                dep \<in> started st2" for st2
  proof (intro conjI ballI)
    note ih = Cons.IH [OF r]
    from ih have ih1: "started st2 \<subseteq> started st'" by (rule conjunct1)
    from ih have ih2: "\<forall>dep' \<in> set deps. ?P dep'" by (rule conjunct2)
    show "started st \<subseteq> started st'"
      using m ih1 by (rule subset_trans)
    fix dep'
    assume "dep' \<in> set (dep # deps)"
    then consider "dep' = dep" | "dep' \<in> set deps"
      by (cases "dep' = dep") simp_all
    then show "?P dep'"
    proof cases
      case 1
      show ?thesis
      proof (intro allI impI)
        fix d
        assume "find (\<lambda>s. s_name s = dep') (services project) = Some d" "hasStart d"
        with 1 have "dep \<in> started st2" by (intro h) simp_all
        with ih1 have "dep \<in> started st'" by (rule subsetD)
        with 1 show "dep' \<in> started st'" by simp
      qed
    next
      case 2
      with ih2 show ?thesis by (rule bspec)
    qed
  qed
  show ?case
  proof (cases "find (\<lambda>s. s_name s = dep) (services project)")
    case None
    from Cons.prems have r: "startDeps again project deps st = Some st'"
      by (simp only: startDeps_Cons_unknown [OF None])
    show ?thesis
    proof (rule tail [OF r])
      show "started st \<subseteq> started st" by (rule subset_refl)
    next
      fix d
      assume "find (\<lambda>s. s_name s = dep) (services project) = Some d"
      with None show "dep \<in> started st" by simp
    qed
  next
    case (Some d)
    show ?thesis
    proof (cases "dep \<in> started st")
      case True
      from Cons.prems have r: "startDeps again project deps st = Some st'"
        by (simp only: startDeps_Cons_started [OF Some True])
      show ?thesis
      proof (rule tail [OF r])
        show "started st \<subseteq> started st" by (rule subset_refl)
      next
        show "dep \<in> started st" by (rule True)
      qed
    next
      case False
      from Cons.prems
      have c: "(case again d st of None \<Rightarrow> None | Some st2 \<Rightarrow> startDeps again project deps st2)
                 = Some st'"
        by (simp only: startDeps_Cons_run [OF Some False])
      then obtain st2 where
        a: "again d st = Some st2" and r: "startDeps again project deps st2 = Some st'"
        by (cases "again d st") simp_all
      have nm: "s_name d = dep"
        using find_name [OF Some] by (rule conjunct2)
      show ?thesis
      proof (rule tail [OF r])
        show "started st \<subseteq> started st2"
          using a by (rule mono)
      next
        fix d'
        assume "find (\<lambda>s. s_name s = dep) (services project) = Some d'" "hasStart d'"
        with Some have "hasStart d" by simp
        from post [OF a this] nm show "dep \<in> started st2" by simp
      qed
    qed
  qed
qed

lemma sessionName_inj:
  "(sessionName project s = sessionName project s') = (s_name s = s_name s')"
  by (simp add: sessionName_def)

lemma name_inj:
  assumes "distinct (map s_name xs)" "s \<in> set xs" "s' \<in> set xs" "s_name s = s_name s'"
  shows "s = s'"
  using assms by (auto simp add: distinct_map dest: inj_onD)

lemma append_split:
  assumes "tr @ es = xs @ e # ys"
  shows "(\<exists>ys0. tr = xs @ e # ys0 \<and> ys = ys0 @ es) \<or> (\<exists>us. xs = tr @ us \<and> es = us @ e # ys)"
proof -
  from assms obtain us where
    "(tr = xs @ us \<and> us @ es = e # ys) \<or> (tr @ us = xs \<and> es = us @ e # ys)"
    by (auto simp add: append_eq_append_conv2)
  then show ?thesis
  proof
    assume a: "tr = xs @ us \<and> us @ es = e # ys"
    show ?thesis
    proof (cases us)
      case Nil
      with a have "xs = tr @ [] \<and> es = [] @ e # ys" by simp
      then show ?thesis by blast
    next
      case (Cons u us')
      with a have "tr = xs @ e # us' \<and> ys = us' @ es" by simp
      then show ?thesis by blast
    qed
  next
    assume "tr @ us = xs \<and> es = us @ e # ys"
    then show ?thesis by blast
  qed
qed

lemma spawn_in_launch:
  assumes "us @ Spawn j n d # ys = Spawn i nX dir # map (PtyWrite i) ls @ [PtyWrite i l]"
  shows "us = [] \<and> j = i \<and> n = nX \<and> ys = map (PtyWrite i) ls @ [PtyWrite i l]"
proof (cases us)
  case Nil
  with assms show ?thesis by simp
next
  case (Cons u us')
  with assms have "us' @ Spawn j n d # ys = map (PtyWrite i) ls @ [PtyWrite i l]"
    by simp
  then have "Spawn j n d \<in> set (map (PtyWrite i) ls @ [PtyWrite i l])"
    by (metis in_set_conv_decomp)
  then show ?thesis by auto
qed

lemma spawnCount_append: "spawnCount nm (xs @ ys) = spawnCount nm xs + spawnCount nm ys"
  by (simp add: spawnCount_def)

lemma spawnCount_writes: "spawnCount nm (map (PtyWrite i) ls) = 0"
  by (induction ls) (simp_all add: spawnCount_def)

lemma spawnCount_launch:
  "spawnCount nm (Spawn i nX dir # map (PtyWrite i) ls @ [PtyWrite i l]) = (if nX = nm then 1 else 0)"
  using spawnCount_writes [of nm i "ls @ [l]"]
  by (simp add: spawnCount_def)

lemma startedIn_append: "startedIn project s tr \<Longrightarrow> startedIn project s (tr @ es)"
  unfolding startedIn_def
proof -
  assume "\<exists>i dir xs ys zs.
     tr = xs @ Spawn i (sessionName project s) dir # ys @ PtyWrite i (startLine s) # zs"
  then obtain i dir xs ys zs where
    "tr = xs @ Spawn i (sessionName project s) dir # ys @ PtyWrite i (startLine s) # zs"
    by blast
  then have "tr @ es
      = xs @ Spawn i (sessionName project s) dir # ys @ PtyWrite i (startLine s) # (zs @ es)"
    by simp
  then show "\<exists>i dir xs ys zs.
     tr @ es = xs @ Spawn i (sessionName project s) dir # ys @ PtyWrite i (startLine s) # zs"
    by blast
qed

lemma launch_goodTrace:
  assumes dist: "distinct (map s_name (services project))"
    and X: "X \<in> set (services project)"
    and g: "goodTrace project S tr"
    and fresh: "s_name X \<notin> S"
    and deps: "\<forall>d \<in> set (directDeps project X). hasStart d \<longrightarrow> s_name d \<in> S"
  shows "goodTrace project (insert (s_name X) S)
           (tr @ Spawn i (sessionName project X) dir # map (PtyWrite i) ls @ [PtyWrite i (startLine X)])"
proof -
  let ?es = "Spawn i (sessionName project X) dir # map (PtyWrite i) ls @ [PtyWrite i (startLine X)]"
  from g have df: "depsFirst project tr"
    and J: "\<And>s. s \<in> set (services project) \<Longrightarrow> hasStart s \<Longrightarrow> s_name s \<in> S \<Longrightarrow>
              startedIn project s tr"
    and K: "\<And>s. s \<in> set (services project) \<Longrightarrow>
              spawnCount (sessionName project s) tr = (if s_name s \<in> S then 1 else 0)"
    by (simp_all add: goodTrace_def)
  have same: "s = X" if "s \<in> set (services project)" "s_name s = s_name X" for s
    using dist that(1) X that(2) by (rule name_inj)
  have Xin: "startedIn project X (tr @ ?es)"
    unfolding startedIn_def
  proof (intro exI)
    show "tr @ ?es = tr @ Spawn i (sessionName project X) dir # map (PtyWrite i) ls @
             PtyWrite i (startLine X) # []"
      by simp
  qed
  have df': "depsFirst project (tr @ ?es)"
    unfolding depsFirst_def
  proof (intro ballI allI impI)
    fix s xs j dir' ys
    assume s: "s \<in> set (services project)"
      and eq: "tr @ ?es = xs @ Spawn j (sessionName project s) dir' # ys"
    from append_split [OF eq]
    show "(\<exists>ys' zs. ys = ys' @ PtyWrite j (startLine s) # zs) \<and>
          (\<forall>d \<in> set (directDeps project s). hasStart d \<longrightarrow> startedIn project d xs)"
    proof
      assume "\<exists>ys0. tr = xs @ Spawn j (sessionName project s) dir' # ys0 \<and> ys = ys0 @ ?es"
      then obtain ys0 where
        t: "tr = xs @ Spawn j (sessionName project s) dir' # ys0" and y: "ys = ys0 @ ?es"
        by blast
      from df s t
      have old: "(\<exists>ys' zs. ys0 = ys' @ PtyWrite j (startLine s) # zs) \<and>
          (\<forall>d \<in> set (directDeps project s). hasStart d \<longrightarrow> startedIn project d xs)"
        unfolding depsFirst_def by blast
      then obtain ys' zs where "ys0 = ys' @ PtyWrite j (startLine s) # zs"
        by blast
      with y have "ys = ys' @ PtyWrite j (startLine s) # (zs @ ?es)"
        by simp
      then have "\<exists>ys' zs. ys = ys' @ PtyWrite j (startLine s) # zs"
        by blast
      with old show ?thesis by blast
    next
      assume "\<exists>us. xs = tr @ us \<and> ?es = us @ Spawn j (sessionName project s) dir' # ys"
      then obtain us where x: "xs = tr @ us"
        and e: "us @ Spawn j (sessionName project s) dir' # ys = ?es"
        by auto
      from spawn_in_launch [OF e]
      have u: "us = []" and ji: "j = i" and n: "sessionName project s = sessionName project X"
        and y: "ys = map (PtyWrite i) ls @ [PtyWrite i (startLine X)]"
        by simp_all
      from n have "s_name s = s_name X"
        by (simp add: sessionName_inj)
      with s have sX: "s = X" by (rule same)
      have "ys = map (PtyWrite i) ls @ PtyWrite j (startLine s) # []"
        using y ji sX by simp
      then have own: "\<exists>ys' zs. ys = ys' @ PtyWrite j (startLine s) # zs"
        by blast
      have "\<forall>d \<in> set (directDeps project s). hasStart d \<longrightarrow> startedIn project d xs"
      proof (intro ballI impI)
        fix d
        assume d: "d \<in> set (directDeps project s)" and h: "hasStart d"
        with deps sX have "s_name d \<in> S" by simp
        moreover from d have "d \<in> set (services project)"
          by (rule directDeps_in_services)
        ultimately have "startedIn project d tr"
          using h by (intro J)
        with x u show "startedIn project d xs" by simp
      qed
      with own show ?thesis by blast
    qed
  qed
  have J': "\<forall>s \<in> set (services project). hasStart s \<longrightarrow> s_name s \<in> insert (s_name X) S \<longrightarrow>
              startedIn project s (tr @ ?es)"
  proof (intro ballI impI)
    fix s
    assume s: "s \<in> set (services project)" and h: "hasStart s"
      and m: "s_name s \<in> insert (s_name X) S"
    show "startedIn project s (tr @ ?es)"
    proof (cases "s_name s = s_name X")
      case True
      with s have "s = X" by (rule same)
      with Xin show ?thesis by simp
    next
      case False
      with m have "s_name s \<in> S" by simp
      with s h have "startedIn project s tr" by (intro J)
      then show ?thesis by (rule startedIn_append)
    qed
  qed
  have K': "\<forall>s \<in> set (services project).
      spawnCount (sessionName project s) (tr @ ?es) = (if s_name s \<in> insert (s_name X) S then 1 else 0)"
  proof
    fix s
    assume s: "s \<in> set (services project)"
    show "spawnCount (sessionName project s) (tr @ ?es)
            = (if s_name s \<in> insert (s_name X) S then 1 else 0)"
    proof (cases "s_name s = s_name X")
      case True
      with fresh K [OF s] have "spawnCount (sessionName project s) tr = 0" by simp
      with True show ?thesis
        by (simp add: spawnCount_append spawnCount_launch sessionName_inj)
    next
      case False
      with K [OF s] show ?thesis
        by (simp add: spawnCount_append spawnCount_launch sessionName_inj)
    qed
  qed
  from df' J' K' show ?thesis
    unfolding goodTrace_def by blast
qed

lemma depEdges_services:
  "(y, s) \<in> depEdges project \<Longrightarrow> y \<in> set (services project) \<and> s \<in> set (services project)"
  by (auto simp add: depEdges_iff dest: directDeps_in_services)

lemma below_services:
  assumes "(y, s) \<in> (depEdges project)\<^sup>*" "s \<in> set (services project)"
  shows "y \<in> set (services project)"
  using assms by (cases rule: converse_rtranclE) (simp_all add: depEdges_services)

lemma strictBelow_below:
  assumes "s \<in> set (services project)" "y \<in> strictBelow project s"
  shows "(y, s) \<in> (depEdges project)\<^sup>+"
proof -
  from assms(2) obtain d where d: "d \<in> set (directDeps project s)"
    and y: "(y, d) \<in> (depEdges project)\<^sup>*"
    by (auto simp add: strictBelow_def)
  from d assms(1) have "(d, s) \<in> depEdges project"
    by (simp add: depEdges_iff)
  with y show ?thesis by (rule rtrancl_into_trancl1)
qed

lemma startDeps_reach_gen:
  assumes run: "startDeps again project (depNames s) st = Some st1"
    and again: "\<And>d a b. d \<in> set (directDeps project s) \<Longrightarrow> again d a = Some b \<Longrightarrow>
        started b \<subseteq> started a \<union> s_name ` {y. (y, d) \<in> (depEdges project)\<^sup>*}"
  shows "started st1 \<subseteq> started st \<union> s_name ` strictBelow project s"
proof (rule startDeps_inv [OF run])
  show "started st \<subseteq> started st \<union> s_name ` strictBelow project s"
    by simp
next
  fix dep d a b
  assume dep: "dep \<in> set (depNames s)"
    and f: "find (\<lambda>s. s_name s = dep) (services project) = Some d"
    and inv: "started a \<subseteq> started st \<union> s_name ` strictBelow project s"
    and ab: "again d a = Some b"
  from dep f have d: "d \<in> set (directDeps project s)"
    by (auto simp add: directDeps_depNames)
  then have "{y. (y, d) \<in> (depEdges project)\<^sup>*} \<subseteq> strictBelow project s"
    by (auto simp add: strictBelow_def)
  then have "s_name ` {y. (y, d) \<in> (depEdges project)\<^sup>*} \<subseteq> s_name ` strictBelow project s"
    by (rule image_mono)
  with again [OF d ab] inv
  show "started b \<subseteq> started st \<union> s_name ` strictBelow project s"
    by blast
qed

lemma startService_reach:
  "s \<in> set (services project) \<Longrightarrow> startService n pj project s st = Some st' \<Longrightarrow>
   started st' \<subseteq> started st \<union> s_name ` {y. (y, s) \<in> (depEdges project)\<^sup>*}"
proof (induction n arbitrary: s st st')
  case 0
  then show ?case by simp
next
  case (Suc n)
  from Suc.prems(2) show ?case
  proof (cases rule: startService_cases)
    case skip
    then show ?thesis by simp
  next
    case (run m st1)
    then have m: "m = n" by simp
    have "started st1 \<subseteq> started st \<union> s_name ` strictBelow project s"
    proof (rule startDeps_reach_gen [OF run(3)])
      fix d a b
      assume "d \<in> set (directDeps project s)" and ab: "startService m pj project d a = Some b"
      then have "d \<in> set (services project)"
        by (simp add: directDeps_in_services)
      from Suc.IH [OF this] ab m
      show "started b \<subseteq> started a \<union> s_name ` {y. (y, d) \<in> (depEdges project)\<^sup>*}"
        by simp
    qed
    moreover have "strictBelow project s \<subseteq> {y. (y, s) \<in> (depEdges project)\<^sup>*}"
      using strictBelow_below [OF Suc.prems(1)] by (auto intro: trancl_into_rtrancl)
    then have "s_name ` strictBelow project s \<subseteq> s_name ` {y. (y, s) \<in> (depEdges project)\<^sup>*}"
      by (rule image_mono)
    moreover have "started st' \<subseteq> insert (s_name s) (started st1)"
      using run(4) by (auto simp add: launch_started)
    moreover have "s_name s \<in> s_name ` {y. (y, s) \<in> (depEdges project)\<^sup>*}"
      by blast
    ultimately show ?thesis by blast
  qed
qed

lemma fresh_after_deps:
  assumes acyc: "acyclic (depEdges project)"
    and dist: "distinct (map s_name (services project))"
    and s: "s \<in> set (services project)"
    and fresh: "s_name s \<notin> started st"
    and sub: "started st1 \<subseteq> started st \<union> s_name ` strictBelow project s"
  shows "s_name s \<notin> started st1"
proof
  assume "s_name s \<in> started st1"
  with sub fresh obtain y where y: "y \<in> strictBelow project s" and n: "s_name s = s_name y"
    by blast
  from strictBelow_below [OF s y] have below: "(y, s) \<in> (depEdges project)\<^sup>+" .
  then have "(y, s) \<in> (depEdges project)\<^sup>*"
    by (rule trancl_into_rtrancl)
  then have "y \<in> set (services project)"
    using s by (rule below_services)
  with dist s have "s = y"
    using n by (rule name_inj)
  with below have "(s, s) \<in> (depEdges project)\<^sup>+" by simp
  with acyc show False by (simp add: acyclic_def)
qed

lemma good_launch:
  assumes dist: "distinct (map s_name (services project))"
    and s: "s \<in> set (services project)"
    and g: "good project base st1"
    and fresh: "s_name s \<notin> started st1"
    and deps: "\<forall>d \<in> set (directDeps project s). hasStart d \<longrightarrow> s_name d \<in> started st1"
    and h: "hasStart s"
  shows "good project base (launch pj project s (the (startCommand s)) st1)"
proof -
  from h obtain cmd where cmd: "startCommand s = Some cmd"
    by (cases "startCommand s") (simp_all add: hasStart_def)
  from g obtain tr where tr: "trace (sworld st1) = base @ tr"
    and gt: "goodTrace project (started st1) tr"
    by (auto simp add: good_def)
  let ?i = "nextId (sworld st1)"
  let ?es = "Spawn ?i (sessionName project s) (pj (rootPath project) (s_path s)) #
             map (PtyWrite ?i) (envLines s) @ [PtyWrite ?i (startLine s)]"
  have "trace (sworld (launch pj project s cmd st1)) = base @ (tr @ ?es)"
    using launch_trace [OF cmd, of pj project st1] tr by simp
  moreover have "goodTrace project (started (launch pj project s cmd st1)) (tr @ ?es)"
    unfolding launch_started
    using dist s gt fresh deps by (rule launch_goodTrace)
  ultimately show ?thesis
    unfolding good_def cmd option.sel by blast
qed

lemma startService_good:
  assumes acyc: "acyclic (depEdges project)"
    and dist: "distinct (map s_name (services project))"
  shows "s \<in> set (services project) \<Longrightarrow> good project base st \<Longrightarrow>
         startService n pj project s st = Some st' \<Longrightarrow> good project base st'"
proof (induction n arbitrary: s st st')
  case 0
  then show ?case by simp
next
  case (Suc n)
  from Suc.prems(3) show ?case
  proof (cases rule: startService_cases)
    case skip
    with Suc.prems(2) show ?thesis by simp
  next
    case (run m st1)
    then have m: "m = n" by simp
    have g1: "good project base st1"
    proof (rule startDeps_inv [where Inv = "good project base", OF run(3) Suc.prems(2)])
      fix dep d a b
      assume "find (\<lambda>s. s_name s = dep) (services project) = Some d"
        and a: "good project base a" and ab: "startService m pj project d a = Some b"
      then have "d \<in> set (services project)"
        using find_name by blast
      from Suc.IH [OF this a] ab m show "good project base b" by simp
    qed
    show ?thesis
    proof (cases "hasStart s")
      case False
      with run(4) g1 show ?thesis by simp
    next
      case True
      have "started st1 \<subseteq> started st \<union> s_name ` strictBelow project s"
      proof (rule startDeps_reach_gen [OF run(3)])
        fix d a b
        assume "d \<in> set (directDeps project s)" and ab: "startService m pj project d a = Some b"
        then have "d \<in> set (services project)"
          by (simp add: directDeps_in_services)
        then show "started b \<subseteq> started a \<union> s_name ` {y. (y, d) \<in> (depEdges project)\<^sup>*}"
          using ab by (rule startService_reach)
      qed
      with acyc dist Suc.prems(1) run(2) have fresh: "s_name s \<notin> started st1"
        by (rule fresh_after_deps)
      have post: "\<forall>dep \<in> set (depNames s).
          \<forall>d. find (\<lambda>s. s_name s = dep) (services project) = Some d \<longrightarrow>
            hasStart d \<longrightarrow> dep \<in> started st1"
      proof (rule conjunct2 [OF startDeps_post_gen [OF run(3)]])
        fix d a b
        assume "startService m pj project d a = Some b"
        then show "started a \<subseteq> started b"
          using startService_mono by blast
      next
        fix d a b
        assume "startService m pj project d a = Some b" "hasStart d"
        then show "s_name d \<in> started b"
          by (rule startService_post)
      qed
      have deps: "\<forall>d \<in> set (directDeps project s). hasStart d \<longrightarrow> s_name d \<in> started st1"
      proof (intro ballI impI)
        fix d
        assume "d \<in> set (directDeps project s)" and h: "hasStart d"
        then obtain dep where dep: "dep \<in> set (depNames s)"
          and f: "find (\<lambda>x. s_name x = dep) (services project) = Some d"
          by (auto simp add: directDeps_depNames)
        from find_name [OF f] have "s_name d = dep" by (rule conjunct2)
        moreover from post dep f h have "dep \<in> started st1" by blast
        ultimately show "s_name d \<in> started st1" by simp
      qed
      from dist Suc.prems(1) g1 fresh deps True
      have "good project base (launch pj project s (the (startCommand s)) st1)"
        by (rule good_launch)
      with run(4) True show ?thesis by simp
    qed
  qed
qed

lemma startAll_good:
  assumes acyc: "acyclic (depEdges project)"
    and dist: "distinct (map s_name (services project))"
  shows "set xs \<subseteq> set (services project) \<Longrightarrow> good project base st \<Longrightarrow>
         startAll n pj project xs st = Some st' \<Longrightarrow>
         good project base st' \<and> started st \<subseteq> started st' \<and>
         (\<forall>s \<in> set xs. hasStart s \<longrightarrow> s_name s \<in> started st')"
proof (induction xs arbitrary: st)
  case Nil
  then show ?case by simp
next
  case (Cons x xs)
  from Cons.prems(3) obtain st2 where
    a: "startService n pj project x st = Some st2" and r: "startAll n pj project xs st2 = Some st'"
    by (cases "startService n pj project x st") simp_all
  from Cons.prems(1) have x: "x \<in> set (services project)" and xs: "set xs \<subseteq> set (services project)"
    by simp_all
  from startService_good [OF acyc dist x Cons.prems(2) a] have g2: "good project base st2" .
  from Cons.IH [OF xs g2 r]
  have ih1: "good project base st'" and ih2: "started st2 \<subseteq> started st'"
    and ih3: "\<forall>s \<in> set xs. hasStart s \<longrightarrow> s_name s \<in> started st'"
    by simp_all
  from startService_mono [OF a] have m: "started st \<subseteq> started st2" by simp
  have hx: "hasStart x \<longrightarrow> s_name x \<in> started st'"
  proof
    assume "hasStart x"
    with a have "s_name x \<in> started st2" by (rule startService_post)
    with ih2 show "s_name x \<in> started st'" by (rule subsetD)
  qed
  from m ih2 have "started st \<subseteq> started st'" by (rule subset_trans)
  with ih1 ih3 hx show ?case by simp
qed

lemma allBelow_mono: "allBelow project x S \<Longrightarrow> S \<subseteq> T \<Longrightarrow> allBelow project x T"
  unfolding allBelow_def by blast

lemma startDeps_complete:
  assumes "startDeps again project deps st = Some st'"
    and "complete project (started st)"
    and again: "\<And>d a b. d \<in> set (services project) \<Longrightarrow> complete project (started a) \<Longrightarrow>
           again d a = Some b \<Longrightarrow>
           started a \<subseteq> started b \<and> complete project (started b) \<and> allBelow project d (started b)"
  shows "started st \<subseteq> started st' \<and> complete project (started st') \<and>
         (\<forall>dep \<in> set deps. \<forall>d. find (\<lambda>s. s_name s = dep) (services project) = Some d \<longrightarrow>
            allBelow project d (started st'))"
  using assms(1,2)
proof (induction deps arbitrary: st)
  case Nil
  from Nil(1) have "Some st = Some st'"
    by (simp only: startDeps.simps(1))
  then have "st' = st"
    by (simp only: option.inject)
  with Nil(2) show ?case
    by (simp only: subset_refl list.set ball_empty simp_thms)
next
  case (Cons dep deps)
  let ?P = "\<lambda>dep'. \<forall>d. find (\<lambda>s. s_name s = dep') (services project) = Some d \<longrightarrow>
                allBelow project d (started st')"
  have tail: "started st \<subseteq> started st' \<and> complete project (started st') \<and>
              (\<forall>dep' \<in> set (dep # deps). ?P dep')"
    if r: "startDeps again project deps st2 = Some st'"
      and m: "started st \<subseteq> started st2"
      and c: "complete project (started st2)"
      and h: "\<And>d. find (\<lambda>s. s_name s = dep) (services project) = Some d \<Longrightarrow>
                allBelow project d (started st2)" for st2
  proof (intro conjI ballI)
    note ih = Cons.IH [OF r c]
    from ih have ih1: "started st2 \<subseteq> started st'" by (rule conjunct1)
    from ih have ih2: "complete project (started st')" by (rule conjunct1 [OF conjunct2])
    from ih have ih3: "\<forall>dep' \<in> set deps. ?P dep'" by (rule conjunct2 [OF conjunct2])
    show "started st \<subseteq> started st'"
      using m ih1 by (rule subset_trans)
    show "complete project (started st')" by (rule ih2)
    fix dep'
    assume "dep' \<in> set (dep # deps)"
    then consider "dep' = dep" | "dep' \<in> set deps"
      by (cases "dep' = dep") simp_all
    then show "?P dep'"
    proof cases
      case 1
      show ?thesis
      proof (intro allI impI)
        fix d
        assume "find (\<lambda>s. s_name s = dep') (services project) = Some d"
        with 1 have "allBelow project d (started st2)" by (intro h) simp
        then show "allBelow project d (started st')" using ih1 by (rule allBelow_mono)
      qed
    next
      case 2
      with ih3 show ?thesis by (rule bspec)
    qed
  qed
  show ?case
  proof (cases "find (\<lambda>s. s_name s = dep) (services project)")
    case None
    from Cons.prems(1) have r: "startDeps again project deps st = Some st'"
      by (simp only: startDeps_Cons_unknown [OF None])
    show ?thesis
    proof (rule tail [OF r subset_refl Cons.prems(2)])
      fix d
      assume "find (\<lambda>s. s_name s = dep) (services project) = Some d"
      with None show "allBelow project d (started st)" by simp
    qed
  next
    case (Some d)
    have d: "d \<in> set (services project)"
      using find_name [OF Some] by (rule conjunct1)
    have nm: "s_name d = dep"
      using find_name [OF Some] by (rule conjunct2)
    show ?thesis
    proof (cases "dep \<in> started st")
      case True
      from Cons.prems(1) have r: "startDeps again project deps st = Some st'"
        by (simp only: startDeps_Cons_started [OF Some True])
      show ?thesis
      proof (rule tail [OF r subset_refl Cons.prems(2)])
        fix d'
        assume "find (\<lambda>s. s_name s = dep) (services project) = Some d'"
        with Some have "d' = d" by simp
        moreover from Cons.prems(2) d nm True have "allBelow project d (started st)"
          by (simp add: complete_def)
        ultimately show "allBelow project d' (started st)" by simp
      qed
    next
      case False
      from Cons.prems(1)
      have c: "(case again d st of None \<Rightarrow> None | Some st2 \<Rightarrow> startDeps again project deps st2)
                 = Some st'"
        by (simp only: startDeps_Cons_run [OF Some False])
      then obtain st2 where
        a: "again d st = Some st2" and r: "startDeps again project deps st2 = Some st'"
        by (cases "again d st") simp_all
      note ag = again [OF d Cons.prems(2) a]
      show ?thesis
      proof (rule tail [OF r])
        show "started st \<subseteq> started st2"
          using ag by (rule conjunct1)
        show "complete project (started st2)"
          using ag by (rule conjunct1 [OF conjunct2])
      next
        fix d'
        assume "find (\<lambda>s. s_name s = dep) (services project) = Some d'"
        with Some have "d' = d" by simp
        moreover from ag have "allBelow project d (started st2)"
          by (rule conjunct2 [OF conjunct2])
        ultimately show "allBelow project d' (started st2)" by simp
      qed
    qed
  qed
qed

lemma below_cases:
  assumes "(y, s) \<in> (depEdges project)\<^sup>*"
  shows "y = s \<or> (\<exists>d \<in> set (directDeps project s). (y, d) \<in> (depEdges project)\<^sup>*)"
  using assms
proof (cases rule: rtranclE)
  case base
  then show ?thesis by simp
next
  case (step d)
  then show ?thesis by (auto simp add: depEdges_iff)
qed

lemma startService_complete:
  assumes dist: "distinct (map s_name (services project))"
  shows "s \<in> set (services project) \<Longrightarrow> complete project (started st) \<Longrightarrow>
         startService n pj project s st = Some st' \<Longrightarrow>
         complete project (started st') \<and> allBelow project s (started st')"
proof (induction n arbitrary: s st st')
  case 0
  then show ?case by simp
next
  case (Suc n)
  from Suc.prems(3) show ?case
  proof (cases rule: startService_cases)
    case skip
    with Suc.prems(1,2) show ?thesis by (simp add: complete_def)
  next
    case (run m st1)
    then have m: "m = n" by simp
    have mid: "started st \<subseteq> started st1 \<and> complete project (started st1) \<and>
         (\<forall>dep \<in> set (depNames s). \<forall>d. find (\<lambda>s. s_name s = dep) (services project) = Some d \<longrightarrow>
            allBelow project d (started st1))"
    proof (rule startDeps_complete [OF run(3) Suc.prems(2)])
      fix d a b
      assume d: "d \<in> set (services project)" and a: "complete project (started a)"
        and ab: "startService m pj project d a = Some b"
      from ab have "started a \<subseteq> started b"
        using startService_mono by blast
      moreover from Suc.IH [OF d a] ab m
      have "complete project (started b) \<and> allBelow project d (started b)" by simp
      ultimately show "started a \<subseteq> started b \<and> complete project (started b) \<and>
          allBelow project d (started b)" by simp
    qed
    then have c1: "complete project (started st1)" by simp
    have deps: "allBelow project d (started st1)" if "d \<in> set (directDeps project s)" for d
      using that mid by (auto simp add: directDeps_depNames)
    have rest: "s_name y \<in> started st1"
      if "(y, s) \<in> (depEdges project)\<^sup>*" "hasStart y" "y \<noteq> s" for y
    proof -
      from below_cases [OF that(1)] that(3)
      obtain d where d: "d \<in> set (directDeps project s)" and y: "(y, d) \<in> (depEdges project)\<^sup>*"
        by blast
      from deps [OF d] y that(2) show ?thesis
        by (simp add: allBelow_def)
    qed
    show ?thesis
    proof (cases "hasStart s")
      case False
      with run(4) have st': "st' = st1" by simp
      have "allBelow project s (started st1)"
        unfolding allBelow_def using rest False by blast
      with c1 st' show ?thesis by simp
    next
      case True
      with run(4) have st': "started st' = insert (s_name s) (started st1)"
        by (simp add: launch_started)
      have sub: "started st1 \<subseteq> started st'"
        unfolding st' by (rule subset_insertI)
      have ab: "allBelow project s (started st')"
        unfolding allBelow_def st' using rest by blast
      have "complete project (started st')"
        unfolding complete_def
      proof (intro ballI impI)
        fix x
        assume x: "x \<in> set (services project)" and "s_name x \<in> started st'"
        then consider "s_name x = s_name s" | "s_name x \<in> started st1"
          unfolding st' by blast
        then show "allBelow project x (started st')"
        proof cases
          case 1
          with dist x Suc.prems(1) have "x = s" by (rule name_inj)
          with ab show ?thesis by simp
        next
          case 2
          with c1 x have "allBelow project x (started st1)"
            by (simp add: complete_def)
          then show ?thesis using sub by (rule allBelow_mono)
        qed
      qed
      with ab show ?thesis by simp
    qed
  qed
qed

lemma startAll_complete:
  assumes dist: "distinct (map s_name (services project))"
  shows "set xs \<subseteq> set (services project) \<Longrightarrow> complete project (started st) \<Longrightarrow>
         startAll n pj project xs st = Some st' \<Longrightarrow>
         started st \<subseteq> started st' \<and> complete project (started st') \<and>
         (\<forall>x \<in> set xs. allBelow project x (started st'))"
proof (induction xs arbitrary: st)
  case Nil
  then show ?case by simp
next
  case (Cons x xs)
  from Cons.prems(3) obtain st2 where
    a: "startService n pj project x st = Some st2" and r: "startAll n pj project xs st2 = Some st'"
    by (cases "startService n pj project x st") simp_all
  from Cons.prems(1) have x: "x \<in> set (services project)" and xs: "set xs \<subseteq> set (services project)"
    by simp_all
  from startService_complete [OF dist x Cons.prems(2) a]
  have c2: "complete project (started st2)" and b2: "allBelow project x (started st2)"
    by simp_all
  from Cons.IH [OF xs c2 r]
  have ih1: "started st2 \<subseteq> started st'" and ih2: "complete project (started st')"
    and ih3: "\<forall>y \<in> set xs. allBelow project y (started st')"
    by simp_all
  from startService_mono [OF a] have m: "started st \<subseteq> started st2" by simp
  from b2 ih1 have "allBelow project x (started st')" by (rule allBelow_mono)
  moreover from m ih1 have "started st \<subseteq> started st'" by (rule subset_trans)
  ultimately show ?case using ih2 ih3 by simp
qed

lemma startService_onlyStart:
  "s \<in> set (services project) \<Longrightarrow> startService n pj project s st = Some st' \<Longrightarrow>
   started st' \<subseteq> started st \<union> s_name ` {y \<in> set (services project). hasStart y}"
proof (induction n arbitrary: s st st')
  case 0
  then show ?case by simp
next
  case (Suc n)
  let ?H = "s_name ` {y \<in> set (services project). hasStart y}"
  from Suc.prems(2) show ?case
  proof (cases rule: startService_cases)
    case skip
    then show ?thesis by simp
  next
    case (run m st1)
    then have m: "m = n" by simp
    have mid: "started st1 \<subseteq> started st \<union> ?H"
    proof (rule startDeps_inv [OF run(3)])
      show "started st \<subseteq> started st \<union> ?H" by simp
    next
      fix dep d a b
      assume f: "find (\<lambda>s. s_name s = dep) (services project) = Some d"
        and inv: "started a \<subseteq> started st \<union> ?H"
        and ab: "startService m pj project d a = Some b"
      have "d \<in> set (services project)"
        using find_name [OF f] by (rule conjunct1)
      from ab m have "startService n pj project d a = Some b" by simp
      with \<open>d \<in> set (services project)\<close> have "started b \<subseteq> started a \<union> ?H" by (rule Suc.IH)
      with inv show "started b \<subseteq> started st \<union> ?H"
        by (simp only: subset_iff Un_iff) metis
    qed
    show ?thesis
    proof (cases "hasStart s")
      case False
      with run(4) have "st' = st1" by simp
      with mid show ?thesis by (simp only:)
    next
      case True
      with run(4) have eq: "started st' = insert (s_name s) (started st1)"
        by (simp add: launch_started)
      from Suc.prems(1) True have "s \<in> {y \<in> set (services project). hasStart y}"
        by simp
      then have "s_name s \<in> ?H" by (rule imageI)
      then have "s_name s \<in> started st \<union> ?H" by (rule UnI2)
      with mid show ?thesis
        by (simp only: eq insert_subset simp_thms)
    qed
  qed
qed

lemma startAll_bounds:
  "set xs \<subseteq> set (services project) \<Longrightarrow> startAll n pj project xs st = Some st' \<Longrightarrow>
   started st' \<subseteq> started st \<union> s_name ` {y \<in> set (services project). hasStart y} \<and>
   started st' \<subseteq> started st \<union> s_name ` reached project xs"
proof (induction xs arbitrary: st)
  case Nil
  then show ?case by simp
next
  case (Cons x xs)
  let ?H = "s_name ` {y \<in> set (services project). hasStart y}"
  from Cons.prems(2) obtain st2 where
    a: "startService n pj project x st = Some st2" and r: "startAll n pj project xs st2 = Some st'"
    by (cases "startService n pj project x st") simp_all
  from Cons.prems(1) have x: "x \<in> set (services project)" and xs: "set xs \<subseteq> set (services project)"
    by simp_all
  from startService_onlyStart [OF x a] have h2: "started st2 \<subseteq> started st \<union> ?H" .
  from startService_reach [OF x a]
  have r2: "started st2 \<subseteq> started st \<union> s_name ` {y. (y, x) \<in> (depEdges project)\<^sup>*}" .
  from Cons.IH [OF xs r]
  have ih1: "started st' \<subseteq> started st2 \<union> ?H"
    and ih2: "started st' \<subseteq> started st2 \<union> s_name ` reached project xs"
    by simp_all
  have "{y. (y, x) \<in> (depEdges project)\<^sup>*} \<subseteq> reached project (x # xs)"
    by (auto simp add: reached_def)
  then have i1: "s_name ` {y. (y, x) \<in> (depEdges project)\<^sup>*} \<subseteq> s_name ` reached project (x # xs)"
    by (rule image_mono)
  have "reached project xs \<subseteq> reached project (x # xs)"
    by (auto simp add: reached_def)
  then have i2: "s_name ` reached project xs \<subseteq> s_name ` reached project (x # xs)"
    by (rule image_mono)
  from r2 i1 have "started st2 \<subseteq> started st \<union> s_name ` reached project (x # xs)"
    by (meson Un_mono subset_refl subset_trans)
  moreover from ih2 i2 have "started st' \<subseteq> started st2 \<union> s_name ` reached project (x # xs)"
    by (meson Un_mono subset_refl subset_trans)
  ultimately have "started st' \<subseteq> started st \<union> s_name ` reached project (x # xs)"
    by (simp only: subset_iff Un_iff) metis
  moreover from h2 ih1 have "started st' \<subseteq> started st \<union> ?H"
    by (simp only: subset_iff Un_iff) metis
  ultimately show ?case by (rule conjI [rotated])
qed

lemma reached_services:
  assumes "set xs \<subseteq> set (services project)" "y \<in> reached project xs"
  shows "y \<in> set (services project)"
proof -
  from assms(2) obtain r where r: "r \<in> set xs" and yr: "(y, r) \<in> (depEdges project)\<^sup>*"
    unfolding reached_def by blast
  from r assms(1) have "r \<in> set (services project)" by (rule subsetD [rotated])
  with yr show ?thesis by (rule below_services)
qed

lemma started_characterised:
  assumes dist: "distinct (map s_name (services project))"
    and xs: "set xs \<subseteq> set (services project)"
    and run: "startAll n pj project xs st0 = Some st"
    and empty: "started st0 = {}"
    and s: "s \<in> set (services project)"
  shows "(s_name s \<in> started st) = (hasStart s \<and> s \<in> reached project xs)"
proof
  assume in_started: "s_name s \<in> started st"
  from startAll_bounds [OF xs run] empty
  have h: "started st \<subseteq> s_name ` {y \<in> set (services project). hasStart y}"
    and r: "started st \<subseteq> s_name ` reached project xs"
    by simp_all
  from h in_started obtain y where y: "y \<in> set (services project)" "hasStart y" "s_name s = s_name y"
    by blast
  from dist s y(1,3) have "s = y" by (rule name_inj)
  with y(2) have hs: "hasStart s" by simp
  from r in_started obtain z where z: "z \<in> reached project xs" "s_name s = s_name z"
    by blast
  from xs z(1) have "z \<in> set (services project)" by (rule reached_services)
  with dist s have "s = z" using z(2) by (rule name_inj)
  with z(1) hs show "hasStart s \<and> s \<in> reached project xs" by simp
next
  assume a: "hasStart s \<and> s \<in> reached project xs"
  then obtain r where r: "r \<in> set xs" and sr: "(s, r) \<in> (depEdges project)\<^sup>*"
    by (auto simp add: reached_def)
  have "complete project (started st0)"
    by (simp add: complete_def empty)
  from startAll_complete [OF dist xs this run] r
  have "allBelow project r (started st)" by simp
  with sr a show "s_name s \<in> started st"
    by (simp add: allBelow_def)
qed

lemma common_bound:
  "\<forall>x \<in> set xs. \<exists>n. \<forall>m \<ge> n. Q x m \<Longrightarrow> \<exists>N::nat. \<forall>x \<in> set xs. \<forall>m \<ge> N. Q x m"
proof (induction xs)
  case Nil
  then show ?case by simp
next
  case (Cons x xs)
  then obtain n where n: "\<forall>m \<ge> n. Q x m" by auto
  from Cons obtain N where N: "\<forall>y \<in> set xs. \<forall>m \<ge> N. Q y m" by auto
  have "\<forall>y \<in> set (x # xs). \<forall>m \<ge> max n N. Q y m"
    using n N by simp
  then show ?case by (rule exI)
qed

lemma startDeps_total:
  assumes "\<forall>dep \<in> set deps. \<forall>d. find (\<lambda>s. s_name s = dep) (services project) = Some d \<longrightarrow>
             (\<forall>a. again d a \<noteq> None)"
  shows "startDeps again project deps st \<noteq> None"
  using assms
proof (induction deps arbitrary: st)
  case Nil
  then show ?case by simp
next
  case (Cons dep deps)
  then have rest: "\<And>a. startDeps again project deps a \<noteq> None"
    by simp
  show ?case
  proof (cases "find (\<lambda>s. s_name s = dep) (services project)")
    case None
    then have "startDeps again project (dep # deps) st = startDeps again project deps st"
      by (rule startDeps_Cons_unknown)
    with rest [of st] show ?thesis by simp
  next
    case (Some d)
    show ?thesis
    proof (cases "dep \<in> started st")
      case True
      with Some have "startDeps again project (dep # deps) st = startDeps again project deps st"
        by (rule startDeps_Cons_started)
      with rest [of st] show ?thesis by simp
    next
      case False
      from Cons.prems Some obtain st2 where st2: "again d st = Some st2"
        by fastforce
      have "startDeps again project (dep # deps) st =
              (case again d st of None \<Rightarrow> None | Some st2 \<Rightarrow> startDeps again project deps st2)"
        using Some False by (rule startDeps_Cons_run)
      with st2 rest [of st2] show ?thesis
        by simp
    qed
  qed
qed

lemma finite_depEdges: "finite (depEdges project)"
  by (simp add: depEdges_def)

lemma startService_total:
  assumes acyc: "acyclic (depEdges project)"
  shows "s \<in> set (services project) \<longrightarrow>
         (\<exists>n. \<forall>m \<ge> n. \<forall>st. startService m pj project s st \<noteq> None)"
proof -
  have wf: "wf (depEdges project)"
    using finite_depEdges acyc by (rule finite_acyclic_wf)
  show ?thesis
  proof (induction s rule: wf_induct_rule [OF wf])
    case (1 s)
    show ?case
    proof
      assume s: "s \<in> set (services project)"
      have "\<forall>d \<in> set (directDeps project s).
              \<exists>n. \<forall>m \<ge> n. \<forall>st. startService m pj project d st \<noteq> None"
      proof
        fix d
        assume d: "d \<in> set (directDeps project s)"
        with s have "(d, s) \<in> depEdges project"
          by (simp add: depEdges_iff)
        moreover from d have "d \<in> set (services project)"
          by (rule directDeps_in_services)
        ultimately show "\<exists>n. \<forall>m \<ge> n. \<forall>st. startService m pj project d st \<noteq> None"
          using "1.IH" by blast
      qed
      then obtain N where N: "\<forall>d \<in> set (directDeps project s).
          \<forall>m \<ge> N. \<forall>st. startService m pj project d st \<noteq> None"
        using common_bound [of "directDeps project s"
            "\<lambda>d m. \<forall>st. startService m pj project d st \<noteq> None"]
        by blast
      have "\<forall>m \<ge> Suc N. \<forall>st. startService m pj project s st \<noteq> None"
      proof (intro allI impI)
        fix m st
        assume "Suc N \<le> m"
        then obtain m' where m: "m = Suc m'" and m': "N \<le> m'"
          by (cases m) simp_all
        have "startDeps (startService m' pj project) project (depNames s) st \<noteq> None"
        proof (rule startDeps_total, intro ballI allI impI)
          fix dep d a
          assume "dep \<in> set (depNames s)"
            and "find (\<lambda>s. s_name s = dep) (services project) = Some d"
          then have "d \<in> set (directDeps project s)"
            by (auto simp add: directDeps_depNames)
          with N m' show "startService m' pj project d a \<noteq> None"
            by blast
        qed
        then obtain st1 where
          "startDeps (startService m' pj project) project (depNames s) st = Some st1"
          by blast
        then show "startService m pj project s st \<noteq> None"
          unfolding m startService_Suc by simp
      qed
      then show "\<exists>n. \<forall>m \<ge> n. \<forall>st. startService m pj project s st \<noteq> None"
        by (rule exI)
    qed
  qed
qed

lemma startAll_total:
  "\<forall>s \<in> set xs. \<forall>st. startService n pj project s st \<noteq> None \<Longrightarrow>
   startAll n pj project xs st \<noteq> None"
proof (induction xs arbitrary: st)
  case Nil
  then show ?case by simp
next
  case (Cons x xs)
  then obtain st2 where "startService n pj project x st = Some st2"
    by fastforce
  with Cons show ?case by simp
qed

lemma servicesToStart_subset:
  "set (servicesToStart project serviceNames) \<subseteq> set (services project)"
  by (cases serviceNames) (auto simp add: servicesToStart_def)

lemma demo_services:
  "services demoProject =
     [\<lparr>s_name = ''api'', s_path = ''api'', startCommand = Some ''npm start'',
       buildCommand = None, testCommand = None,
       envVars = Some [(''PORT'', ''3000'')], dependsOn = Some [''db'', ''cache'']\<rparr>,
      \<lparr>s_name = ''db'', s_path = ''db'', startCommand = Some ''postgres'',
       buildCommand = None, testCommand = None, envVars = None, dependsOn = None\<rparr>,
      \<lparr>s_name = ''docs'', s_path = ''docs'', startCommand = None,
       buildCommand = Some ''make html'', testCommand = None, envVars = None,
       dependsOn = Some [''api'']\<rparr>]"
  by (simp add: demoProject_def)

lemma demo_distinct: "distinct (map s_name (services demoProject))"
  by (simp add: demo_services)

lemma demo_acyclic: "acyclic (depEdges demoProject)"
  by (simp add: depEdges_def directDeps_def demo_services rtrancl_insert) (simp add: acyclic_def)

lemma demo_found: "map_of (projects demoWorld) ''app'' = Some demoProject"
  by (simp add: demoWorld_eval)

lemma start_project_result:
  assumes found: "map_of (projects w) projectId = Some project"
    and dist: "distinct (map s_name (services project))"
    and acyc: "acyclic (depEdges project)"
  shows "\<exists>n (st::startState).
           start_project n pj projectId serviceNames w
             = Some (sworld st, Inr (StartedReply (p_name project) (results st)
                                      (length (createdTerminals st)))) \<and>
           goodTrace project (started st) (newTrace w (sworld st)) \<and>
           (\<forall>s \<in> set (services project).
              (s_name s \<in> started st)
                = (hasStart s \<and> s \<in> reached project (servicesToStart project serviceNames)))"
proof -
  let ?xs = "servicesToStart project serviceNames"
  let ?st0 = "\<lparr>sworld = w, started = {}, results = [], createdTerminals = []\<rparr>"
  have "\<forall>s \<in> set (services project).
          \<exists>n. \<forall>m \<ge> n. \<forall>st. startService m pj project s st \<noteq> None"
    using startService_total [OF acyc] by blast
  then obtain n where n: "\<forall>s \<in> set (services project).
      \<forall>m \<ge> n. \<forall>st. startService m pj project s st \<noteq> None"
    using common_bound [of "services project"
        "\<lambda>s m. \<forall>st. startService m pj project s st \<noteq> None"]
    by blast
  have "\<forall>s \<in> set ?xs. \<forall>st. startService n pj project s st \<noteq> None"
    using n servicesToStart_subset [of project serviceNames] by blast
  then have "startAll n pj project ?xs ?st0 \<noteq> None"
    by (rule startAll_total)
  then obtain st where st: "startAll n pj project ?xs ?st0 = Some st"
    by blast
  have g0: "good project (trace w) ?st0"
    by (simp add: good_def goodTrace_def depsFirst_def startedIn_def spawnCount_def)
  from startAll_good [OF acyc dist servicesToStart_subset g0 st]
  have g: "good project (trace w) st"
    by simp
  from g obtain tr where tr: "trace (sworld st) = trace w @ tr"
    and gt: "goodTrace project (started st) tr"
    by (auto simp add: good_def)
  have nt: "newTrace w (sworld st) = tr"
    by (simp add: newTrace_def tr)
  have sp: "start_project n pj projectId serviceNames w
          = Some (sworld st, Inr (StartedReply (p_name project) (results st)
                                   (length (createdTerminals st))))"
    using found st by (simp add: start_project_def servicesToStart_def Let_def)
  have e0: "started ?st0 = {}"
    by simp
  have ch: "\<forall>s \<in> set (services project).
              (s_name s \<in> started st) = (hasStart s \<and> s \<in> reached project ?xs)"
  proof
    fix s
    assume "s \<in> set (services project)"
    with dist servicesToStart_subset st e0
    show "(s_name s \<in> started st) = (hasStart s \<and> s \<in> reached project ?xs)"
      by (rule started_characterised)
  qed
  show ?thesis
    apply (rule exI [where x = n])
    apply (rule exI [where x = st])
    apply (intro conjI)
      apply (rule sp)
     apply (simp only: nt)
     apply (rule gt)
    apply (rule ch)
    done
qed

lemma shop_services: "services shopProject = [webService, workerService, dbService]"
  by (simp add: shopProject_def)

lemma shop_names:
  "s_name webService = ''web''" "s_name workerService = ''worker''" "s_name dbService = ''db''"
  by (simp_all add: webService_def workerService_def dbService_def)

lemma shop_hasStart: "hasStart webService" "hasStart workerService" "hasStart dbService"
  by (simp_all add: hasStart_def webService_def workerService_def dbService_def)

lemma shop_find_db: "find (\<lambda>s. s_name s = ''db'') (services shopProject) = Some dbService"
  by (simp add: shop_services shop_names)

lemma shop_directDeps:
  "directDeps shopProject webService = [dbService]"
  "directDeps shopProject workerService = [dbService]"
  "directDeps shopProject dbService = []"
proof -
  have d: "dependsOn webService = Some [''db'']" "dependsOn workerService = Some [''db'']"
    "dependsOn dbService = None"
    by (simp_all add: webService_def workerService_def dbService_def)
  show "directDeps shopProject webService = [dbService]"
    "directDeps shopProject workerService = [dbService]"
    "directDeps shopProject dbService = []"
    by (simp_all add: directDeps_def d List.map_filter_simps shop_find_db)
qed

lemma shop_distinct: "distinct (map s_name (services shopProject))"
  by (simp add: shop_services shop_names)

lemma shop_depEdges:
  "depEdges shopProject = {(dbService, webService), (dbService, workerService)}"
  by (simp add: depEdges_def shop_services shop_directDeps)

lemma shop_differ:
  "dbService \<noteq> webService" "dbService \<noteq> workerService" "webService \<noteq> workerService"
  by (simp_all add: webService_def workerService_def dbService_def)

lemma shop_acyclic: "acyclic (depEdges shopProject)"
proof -
  have "(depEdges shopProject)\<^sup>+ = depEdges shopProject"
  proof (rule trancl_id)
    show "trans (depEdges shopProject)"
      unfolding shop_depEdges using shop_differ by (auto intro!: transI)
  qed
  then show ?thesis
    unfolding acyclic_def shop_depEdges using shop_differ by auto
qed

lemma shopWorld_eval:
  "shopWorld =
     \<lparr>terminals = [], projects = [(''shop'', shopProject)],
      nextId = 0, running = {}, trace = [], clock = 0\<rparr>"
  by (simp add: shopWorld_def run_def initWorld_def loadProjectConfig_def shopProject_def)

lemma shop_found: "map_of (projects shopWorld) ''shop'' = Some shopProject"
  by (simp add: shopWorld_eval)

lemma shop_db_reached:
  "dbService \<in> reached shopProject (servicesToStart shopProject (Some [''web'']))"
  "webService \<in> reached shopProject (servicesToStart shopProject (Some [''web'']))"
  "dbService \<in> reached shopProject (servicesToStart shopProject (Some [''web'', ''worker'', ''web'']))"
  "webService \<in> reached shopProject (servicesToStart shopProject (Some [''web'', ''worker'', ''web'']))"
  "workerService \<in> reached shopProject (servicesToStart shopProject (Some [''web'', ''worker'', ''web'']))"
proof -
  have e: "(dbService, webService) \<in> (depEdges shopProject)\<^sup>*"
    by (rule r_into_rtrancl) (simp add: shop_depEdges)
  have r: "(webService, webService) \<in> (depEdges shopProject)\<^sup>*"
    "(workerService, workerService) \<in> (depEdges shopProject)\<^sup>*"
    by simp_all
  have s1: "servicesToStart shopProject (Some [''web'']) = [webService]"
    by (simp add: servicesToStart_def shop_services shop_names)
  have s2: "servicesToStart shopProject (Some [''web'', ''worker'', ''web'']) = [webService, workerService]"
    by (simp add: servicesToStart_def shop_services shop_names)
  show "dbService \<in> reached shopProject (servicesToStart shopProject (Some [''web'']))"
    "webService \<in> reached shopProject (servicesToStart shopProject (Some [''web'']))"
    "dbService \<in> reached shopProject (servicesToStart shopProject (Some [''web'', ''worker'', ''web'']))"
    "webService \<in> reached shopProject (servicesToStart shopProject (Some [''web'', ''worker'', ''web'']))"
    "workerService \<in> reached shopProject (servicesToStart shopProject (Some [''web'', ''worker'', ''web'']))"
    unfolding s1 s2 reached_def using e r by simp_all
qed

text \<open>
  Claim C3. For a loaded project whose services bear pairwise different names and whose
  dependency graph has no cycle, \<^verbatim>\<open>start_project\<close> returns (given enough depth of recursion),
  whatever subset of services was requested. In what it did, each terminal spawned
  for a service comes after the terminal and the start line of every direct dependency
  that resolves to a service with a start command, and before the service's own start line.
  And the terminals are spawned: for every service with a start command that is requested, or
  that a requested service depends on directly or through other services, whether or not it
  is in the requested subset, a terminal is created and given the start line, after each
  of its direct dependencies with a start command got its own terminal and start line.
\<close>

theorem dependencies_started_first:
  assumes "map_of (projects w) projectId = Some project"
    and "distinct (map s_name (services project))"
    and "acyclic (depEdges project)"
  shows "\<exists>n w' r. start_project n pj projectId serviceNames w = Some (w', Inr r) \<and>
           depsFirst project (newTrace w w') \<and>
           (\<forall>X \<in> reached project (servicesToStart project serviceNames). hasStart X \<longrightarrow>
              (\<exists>xs i dir ys zs.
                 newTrace w w'
                   = xs @ Spawn i (sessionName project X) dir # ys @ PtyWrite i (startLine X) # zs \<and>
                 (\<forall>d \<in> set (directDeps project X). hasStart d \<longrightarrow> startedIn project d xs)))"
proof -
  from start_project_result [OF assms, of pj serviceNames]
  obtain n and st :: startState where sp:
    "start_project n pj projectId serviceNames w
       = Some (sworld st, Inr (StartedReply (p_name project) (results st)
                                (length (createdTerminals st))))"
    and gt: "goodTrace project (started st) (newTrace w (sworld st))"
    and ch: "\<forall>s \<in> set (services project).
              (s_name s \<in> started st)
                = (hasStart s \<and> s \<in> reached project (servicesToStart project serviceNames))"
    by blast
  let ?tr = "newTrace w (sworld st)"
  from gt have df: "depsFirst project ?tr"
    and J: "\<forall>s \<in> set (services project). hasStart s \<longrightarrow> s_name s \<in> started st \<longrightarrow>
              startedIn project s ?tr"
    by (simp_all add: goodTrace_def)
  have each: "\<forall>X \<in> reached project (servicesToStart project serviceNames). hasStart X \<longrightarrow>
      (\<exists>xs i dir ys zs.
         ?tr = xs @ Spawn i (sessionName project X) dir # ys @ PtyWrite i (startLine X) # zs \<and>
         (\<forall>d \<in> set (directDeps project X). hasStart d \<longrightarrow> startedIn project d xs))"
  proof (intro ballI impI)
    fix X
    assume r: "X \<in> reached project (servicesToStart project serviceNames)" and h: "hasStart X"
    from servicesToStart_subset r have X: "X \<in> set (services project)"
      by (rule reached_services)
    with ch r h have "s_name X \<in> started st" by simp
    with J X h have "startedIn project X ?tr" by simp
    then obtain i dir xs ys zs where
      tr: "?tr = xs @ Spawn i (sessionName project X) dir # ys @ PtyWrite i (startLine X) # zs"
      unfolding startedIn_def by blast
    from df X tr
    have "\<forall>d \<in> set (directDeps project X). hasStart d \<longrightarrow> startedIn project d xs"
      unfolding depsFirst_def by blast
    with tr show "\<exists>xs i dir ys zs.
         ?tr = xs @ Spawn i (sessionName project X) dir # ys @ PtyWrite i (startLine X) # zs \<and>
         (\<forall>d \<in> set (directDeps project X). hasStart d \<longrightarrow> startedIn project d xs)"
      by blast
  qed
  from sp df each show ?thesis
    by blast
qed

theorem dependencies_started_first_witness:
  "map_of (projects shopWorld) ''shop'' = Some shopProject \<and>
   distinct (map s_name (services shopProject)) \<and>
   acyclic (depEdges shopProject) \<and>
   (\<exists>n w' r. start_project n demoJoin ''shop'' (Some [''web'']) shopWorld = Some (w', Inr r) \<and>
      depsFirst shopProject (newTrace shopWorld w') \<and>
      (\<exists>xs i dir ys zs.
         newTrace shopWorld w'
           = xs @ Spawn i ''shop-web'' dir # ys @ PtyWrite i (''npm run web'' @ CR) # zs \<and>
         startedIn shopProject dbService xs))"
proof (intro conjI)
  show "map_of (projects shopWorld) ''shop'' = Some shopProject"
    by (rule shop_found)
  show "distinct (map s_name (services shopProject))"
    by (rule shop_distinct)
  show "acyclic (depEdges shopProject)"
    by (rule shop_acyclic)
  from dependencies_started_first [OF shop_found shop_distinct shop_acyclic, of demoJoin "Some [''web'']"]
  obtain n w' r where sp: "start_project n demoJoin ''shop'' (Some [''web'']) shopWorld = Some (w', Inr r)"
    and df: "depsFirst shopProject (newTrace shopWorld w')"
    and each: "\<forall>X \<in> reached shopProject (servicesToStart shopProject (Some [''web''])). hasStart X \<longrightarrow>
        (\<exists>xs i dir ys zs.
           newTrace shopWorld w'
             = xs @ Spawn i (sessionName shopProject X) dir # ys @ PtyWrite i (startLine X) # zs \<and>
           (\<forall>d \<in> set (directDeps shopProject X). hasStart d \<longrightarrow> startedIn shopProject d xs))"
    by blast
  from each shop_db_reached(2) shop_hasStart(1)
  obtain xs i dir ys zs where
    tr: "newTrace shopWorld w'
           = xs @ Spawn i (sessionName shopProject webService) dir # ys @
             PtyWrite i (startLine webService) # zs"
    and deps: "\<forall>d \<in> set (directDeps shopProject webService). hasStart d \<longrightarrow>
                 startedIn shopProject d xs"
    by blast
  from deps shop_hasStart(3) have db: "startedIn shopProject dbService xs"
    by (simp add: shop_directDeps)
  have nm: "sessionName shopProject webService = ''shop-web''"
    by (simp add: sessionName_def shopProject_def webService_def)
  have sl: "startLine webService = ''npm run web'' @ CR"
    by (simp add: startLine_def webService_def)
  from tr have "newTrace shopWorld w'
           = xs @ Spawn i ''shop-web'' dir # ys @ PtyWrite i (''npm run web'' @ CR) # zs"
    by (simp only: nm sl)
  with db have "\<exists>xs i dir ys zs.
         newTrace shopWorld w'
           = xs @ Spawn i ''shop-web'' dir # ys @ PtyWrite i (''npm run web'' @ CR) # zs \<and>
         startedIn shopProject dbService xs"
    by blast
  with sp df
  show "\<exists>n w' r. start_project n demoJoin ''shop'' (Some [''web'']) shopWorld = Some (w', Inr r) \<and>
      depsFirst shopProject (newTrace shopWorld w') \<and>
      (\<exists>xs i dir ys zs.
         newTrace shopWorld w'
           = xs @ Spawn i ''shop-web'' dir # ys @ PtyWrite i (''npm run web'' @ CR) # zs \<and>
         startedIn shopProject dbService xs)"
    by blast
qed

text \<open>
  Claim C4. A call of \<^verbatim>\<open>startService\<close> for a name already in the started set returns at once
  and changes nothing. So, for a loaded project with pairwise different service names and no
  dependency cycle, one invocation of \<^verbatim>\<open>start_project\<close> spawns exactly one terminal for
  every service with a start command that is requested or that a requested service depends
  on, directly or through other services and however many services name it as a
  dependency, and no terminal for any other service.
\<close>

theorem each_service_started_once:
  assumes "map_of (projects w) projectId = Some project"
    and "distinct (map s_name (services project))"
    and "acyclic (depEdges project)"
  shows "(\<forall>k s st. s_name s \<in> started st \<longrightarrow> startService (Suc k) pj project s st = Some st) \<and>
         (\<exists>n w' r. start_project n pj projectId serviceNames w = Some (w', Inr r) \<and>
            (\<forall>s \<in> set (services project).
               spawnCount (sessionName project s) (newTrace w w')
                 = (if hasStart s \<and> s \<in> reached project (servicesToStart project serviceNames)
                    then 1 else 0)))"
proof
  show "\<forall>k s st. s_name s \<in> started st \<longrightarrow> startService (Suc k) pj project s st = Some st"
    by (simp add: startService_Suc)
next
  from start_project_result [OF assms, of pj serviceNames]
  obtain n and st :: startState where sp:
    "start_project n pj projectId serviceNames w
       = Some (sworld st, Inr (StartedReply (p_name project) (results st)
                                (length (createdTerminals st))))"
    and gt: "goodTrace project (started st) (newTrace w (sworld st))"
    and ch: "\<forall>s \<in> set (services project).
              (s_name s \<in> started st)
                = (hasStart s \<and> s \<in> reached project (servicesToStart project serviceNames))"
    by blast
  from gt have K: "\<forall>s \<in> set (services project).
      spawnCount (sessionName project s) (newTrace w (sworld st))
        = (if s_name s \<in> started st then 1 else 0)"
    by (simp add: goodTrace_def)
  have a: "\<forall>s \<in> set (services project).
      spawnCount (sessionName project s) (newTrace w (sworld st))
        = (if hasStart s \<and> s \<in> reached project (servicesToStart project serviceNames)
           then 1 else 0)"
  proof
    fix s
    assume s: "s \<in> set (services project)"
    with K have "spawnCount (sessionName project s) (newTrace w (sworld st))
        = (if s_name s \<in> started st then 1 else 0)"
      by (rule bspec)
    also from ch s have "(s_name s \<in> started st)
        = (hasStart s \<and> s \<in> reached project (servicesToStart project serviceNames))"
      by (rule bspec)
    finally show "spawnCount (sessionName project s) (newTrace w (sworld st))
        = (if hasStart s \<and> s \<in> reached project (servicesToStart project serviceNames)
           then 1 else 0)" .
  qed
  from sp a
  show "\<exists>n w' r. start_project n pj projectId serviceNames w = Some (w', Inr r) \<and>
            (\<forall>s \<in> set (services project).
               spawnCount (sessionName project s) (newTrace w w')
                 = (if hasStart s \<and> s \<in> reached project (servicesToStart project serviceNames)
                    then 1 else 0))"
    by blast
qed

theorem each_service_started_once_witness:
  "map_of (projects shopWorld) ''shop'' = Some shopProject \<and>
   distinct (map s_name (services shopProject)) \<and>
   acyclic (depEdges shopProject) \<and>
   startService (Suc 0) demoJoin shopProject dbService
       \<lparr>sworld = shopWorld, started = {''db''}, results = [(''db'', 0)], createdTerminals = [0]\<rparr>
     = Some \<lparr>sworld = shopWorld, started = {''db''}, results = [(''db'', 0)], createdTerminals = [0]\<rparr> \<and>
   (\<exists>n w' r. start_project n demoJoin ''shop'' (Some [''web'', ''worker'', ''web'']) shopWorld
                = Some (w', Inr r) \<and>
      spawnCount ''shop-db'' (newTrace shopWorld w') = 1 \<and>
      spawnCount ''shop-web'' (newTrace shopWorld w') = 1 \<and>
      spawnCount ''shop-worker'' (newTrace shopWorld w') = 1)"
proof (intro conjI)
  show "map_of (projects shopWorld) ''shop'' = Some shopProject"
    by (rule shop_found)
  show "distinct (map s_name (services shopProject))"
    by (rule shop_distinct)
  show "acyclic (depEdges shopProject)"
    by (rule shop_acyclic)
  note t = each_service_started_once [OF shop_found shop_distinct shop_acyclic,
      of demoJoin "Some [''web'', ''worker'', ''web'']"]
  from t have "\<forall>k s st. s_name s \<in> started st \<longrightarrow>
      startService (Suc k) demoJoin shopProject s st = Some st"
    by (rule conjunct1)
  then show "startService (Suc 0) demoJoin shopProject dbService
       \<lparr>sworld = shopWorld, started = {''db''}, results = [(''db'', 0)], createdTerminals = [0]\<rparr>
     = Some \<lparr>sworld = shopWorld, started = {''db''}, results = [(''db'', 0)], createdTerminals = [0]\<rparr>"
    by (simp add: shop_names)
  from conjunct2 [OF t]
  obtain n w' r where
    sp: "start_project n demoJoin ''shop'' (Some [''web'', ''worker'', ''web'']) shopWorld = Some (w', Inr r)"
    and cnt: "\<forall>s \<in> set (services shopProject).
               spawnCount (sessionName shopProject s) (newTrace shopWorld w')
                 = (if hasStart s \<and>
                       s \<in> reached shopProject (servicesToStart shopProject (Some [''web'', ''worker'', ''web'']))
                    then 1 else 0)"
    by blast
  have nm: "sessionName shopProject dbService = ''shop-db''"
    "sessionName shopProject webService = ''shop-web''"
    "sessionName shopProject workerService = ''shop-worker''"
    by (simp_all add: sessionName_def shopProject_def shop_names)
  from cnt have "spawnCount (sessionName shopProject dbService) (newTrace shopWorld w') = 1"
    by (simp add: shop_services shop_hasStart shop_db_reached)
  moreover from cnt have "spawnCount (sessionName shopProject webService) (newTrace shopWorld w') = 1"
    by (simp add: shop_services shop_hasStart shop_db_reached)
  moreover from cnt have "spawnCount (sessionName shopProject workerService) (newTrace shopWorld w') = 1"
    by (simp add: shop_services shop_hasStart shop_db_reached)
  ultimately show "\<exists>n w' r. start_project n demoJoin ''shop'' (Some [''web'', ''worker'', ''web'']) shopWorld
                = Some (w', Inr r) \<and>
      spawnCount ''shop-db'' (newTrace shopWorld w') = 1 \<and>
      spawnCount ''shop-web'' (newTrace shopWorld w') = 1 \<and>
      spawnCount ''shop-worker'' (newTrace shopWorld w') = 1"
    using sp unfolding nm by blast
qed

text \<open>
  The same invocation evaluated: \<open>web\<close> is requested twice and \<open>db\<close>, which is not
  requested, is a dependency of both \<open>web\<close> and \<open>worker\<close>; three terminals are spawned, the
  one of \<open>db\<close> first.
\<close>

lemma shop_run:
  "(case start_project 2 demoJoin ''shop'' (Some [''web'', ''worker'', ''web'']) shopWorld of
      None \<Rightarrow> False
    | Some (w', r) \<Rightarrow>
        r = Inr (StartedReply ''shop'' [(''db'', 0), (''web'', 1), (''worker'', 2)] 3) \<and>
        newTrace shopWorld w' =
          [Spawn 0 ''shop-db'' ''/srv/shop/db'', PtyWrite 0 (''postgres'' @ CR),
           Spawn 1 ''shop-web'' ''/srv/shop/web'', PtyWrite 1 (''npm run web'' @ CR),
           Spawn 2 ''shop-worker'' ''/srv/shop/worker'', PtyWrite 2 (''npm run worker'' @ CR)])"
  by (simp add: start_project_def shopWorld_eval shopProject_def webService_def workerService_def
      dbService_def numeral_2_eq_2 startService.simps(2)
      startDeps.simps(2) launch_def createTerminal_def newSession_def ptyWrite_def sleep_def Let_def
      demoJoin_def newTrace_def)

text \<open>
  Claim C5 (the code departs from it). Only the service \<open>docs\<close>, which has no start
  command and depends on \<open>api\<close>, is requested. Its dependencies are started and no
  terminal is created for it, as the claim says; but its name is not added to the started
  set, because \<^verbatim>\<open>started.add\<close> stands inside the block that \<^verbatim>\<open>if (service.startCommand)\<close> guards.
\<close>

theorem commandless_service_not_marked_started:
  "(case startAll 3 demoJoin demoProject (servicesToStart demoProject (Some [''docs'']))
          \<lparr>sworld = demoWorld, started = {}, results = [], createdTerminals = []\<rparr> of
      None \<Rightarrow> False
    | Some st \<Rightarrow>
        started st = {''api'', ''db''} \<and> ''docs'' \<notin> started st \<and>
        results st = [(''db'', 2), (''api'', 3)] \<and>
        newTrace demoWorld (sworld st) =
          [Spawn 2 ''app-db'' ''/srv/app/db'', PtyWrite 2 (''postgres'' @ CR),
           Spawn 3 ''app-api'' ''/srv/app/api'',
           PtyWrite 3 (''export PORT='' @ DQ @ ''3000'' @ DQ @ CR),
           PtyWrite 3 (''npm start'' @ CR)])"
  by (simp add: servicesToStart_def demo_services demoProject_def numeral_3_eq_3 startService.simps(2)
      startDeps.simps(2) launch_def createTerminal_def newSession_def ptyWrite_def sleep_def Let_def
      demoWorld_eval demoJoin_def newTrace_def)

end
